theory Spec2Isabelle
  imports Complex_Main "HOL-Library.Log_Nat"
begin

section \<open>URL objects and the URL normalizer (sitemapParser.js)\<close>

text \<open>
  \<^verbatim>\<open>new URL(s)\<close> is the JavaScript runtime's URL parser, not code of the repository.
  The functions below take it as a parameter: a function from the input string to the
  parsed URL object, \<open>None\<close> where the constructor throws. The record holds the
  properties of a URL object; the repository reads \<open>protocol\<close>, \<open>hostname\<close> and
  \<open>pathname\<close> only.
\<close>

record urlObject =
  protocol :: string
  hostname :: string
  port :: string
  pathname :: string
  search :: string
  hash :: string

type_synonym url_parser = "string \<Rightarrow> urlObject option"

text \<open>\<^verbatim>\<open>pathname.endsWith('/') && pathname.length > 1\<close>, then \<^verbatim>\<open>pathname.slice(0, -1)\<close>.\<close>

definition endsWith :: "string \<Rightarrow> char \<Rightarrow> bool" where
  "endsWith s c = (s \<noteq> [] \<and> last s = c)"

definition stripTrailingSlash :: "string \<Rightarrow> string" where
  "stripTrailingSlash p =
     (if endsWith p CHR ''/'' \<and> length p > 1 then butlast p else p)"

text \<open>\<^verbatim>\<open>hostname.replace(/^www\./, '')\<close>: one leading \<^verbatim>\<open>www.\<close> is removed.\<close>

definition stripWww :: "string \<Rightarrow> string" where
  "stripWww h = (if take 4 h = ''www.'' then drop 4 h else h)"

text \<open>
  \<^verbatim>\<open>normalizeUrl\<close>: the \<^verbatim>\<open>catch\<close> branch returns the input unchanged; otherwise the
  result is \<^verbatim>\<open>`${urlObj.protocol}//${hostname}${pathname}`\<close>.
\<close>

definition normalizeUrl :: "url_parser \<Rightarrow> string \<Rightarrow> string" where
  "normalizeUrl URL u =
     (case URL u of
        None \<Rightarrow> u
      | Some urlObj \<Rightarrow>
          protocol urlObj @ ''//'' @ stripWww (hostname urlObj)
            @ stripTrailingSlash (pathname urlObj))"

subsection \<open>The URL parser on plain http(s) URLs\<close>

text \<open>
  A concrete parser for evaluating the functions on literal inputs. It follows the WHATWG
  URL standard on the strings
  \<^verbatim>\<open>http(s)://host[:port][/path][?query][#fragment]\<close> whose host is made of
  non-empty labels of ASCII letters and digits, the last one starting with a letter
  (so the host is a domain, never an IPv4 address), whose port is a decimal number up to
  65535, and whose path, query and fragment use only characters that the standard
  neither percent-encodes nor treats as dot segments. On these strings the standard
  lower-cases the host, drops a default port, and yields path \<^verbatim>\<open>/\<close> when none is
  written. Every other string is outside this fragment and is rejected here; the
  theorems that range over all inputs are stated for an arbitrary parser instead.
\<close>

definition charCode :: "char \<Rightarrow> nat" where
  "charCode c = of_char c"

definition isDigit :: "char \<Rightarrow> bool" where
  "isDigit c = (48 \<le> charCode c \<and> charCode c \<le> 57)"

definition isLower :: "char \<Rightarrow> bool" where
  "isLower c = (97 \<le> charCode c \<and> charCode c \<le> 122)"

definition isUpper :: "char \<Rightarrow> bool" where
  "isUpper c = (65 \<le> charCode c \<and> charCode c \<le> 90)"

definition isAlnum :: "char \<Rightarrow> bool" where
  "isAlnum c = (isDigit c \<or> isLower c \<or> isUpper c)"

text \<open>ASCII lower-casing of one character and of a string (\<^verbatim>\<open>toLowerCase\<close> on ASCII).\<close>

definition lowerChar :: "char \<Rightarrow> char" where
  "lowerChar c =
     (case map_of (zip ''ABCDEFGHIJKLMNOPQRSTUVWXYZ'' ''abcdefghijklmnopqrstuvwxyz'') c of
        None \<Rightarrow> c
      | Some l \<Rightarrow> l)"

definition toLowerCase :: "string \<Rightarrow> string" where
  "toLowerCase s = map lowerChar s"

fun splitOn :: "char \<Rightarrow> string \<Rightarrow> string list" where
  "splitOn d [] = [[]]"
| "splitOn d (c # cs) =
     (if c = d then [] # splitOn d cs
      else (case splitOn d cs of [] \<Rightarrow> [[c]] | w # ws \<Rightarrow> (c # w) # ws))"

definition validHost :: "string \<Rightarrow> bool" where
  "validHost h =
     (let labels = splitOn CHR ''.'' h
      in list_all (\<lambda>l. l \<noteq> [] \<and> list_all isAlnum l) labels
         \<and> (case last labels of [] \<Rightarrow> False | c # _ \<Rightarrow> isLower c \<or> isUpper c))"

fun digitsValue :: "string \<Rightarrow> nat \<Rightarrow> nat" where
  "digitsValue [] acc = acc"
| "digitsValue (c # cs) acc = digitsValue cs (10 * acc + (charCode c - 48))"

definition digitChar :: "nat \<Rightarrow> char" where
  "digitChar d = ''0123456789'' ! d"

fun decimal :: "nat \<Rightarrow> string" where
  "decimal n =
     (if n < 10 then [digitChar n] else decimal (n div 10) @ [digitChar (n mod 10)])"

declare decimal.simps [simp del]

definition pathChar :: "char \<Rightarrow> bool" where
  "pathChar c = (isAlnum c \<or> c = CHR ''/'' \<or> c = CHR ''-'' \<or> c = CHR ''_'')"

definition queryChar :: "char \<Rightarrow> bool" where
  "queryChar c = (isAlnum c \<or> c = CHR ''='' \<or> c = CHR ''&'' \<or> c = CHR ''-'' \<or> c = CHR ''_'')"

definition splitScheme :: "string \<Rightarrow> (string \<times> nat \<times> string) option" where
  "splitScheme s =
     (if take 7 s = ''http://'' then Some (''http:'', 80, drop 7 s)
      else if take 8 s = ''https://'' then Some (''https:'', 443, drop 8 s)
      else None)"

definition authorityEnd :: "char \<Rightarrow> bool" where
  "authorityEnd c = (c = CHR ''/'' \<or> c = CHR ''?'' \<or> c = CHR ''#'')"

definition pathEnd :: "char \<Rightarrow> bool" where
  "pathEnd c = (c = CHR ''?'' \<or> c = CHR ''#'')"

definition parsePort :: "nat \<Rightarrow> string \<Rightarrow> string option" where
  "parsePort dflt p =
     (case p of
        [] \<Rightarrow> Some []
      | c # ds \<Rightarrow>
          if c = CHR '':'' \<and> list_all isDigit ds then
            (if ds = [] then Some []
             else if digitsValue ds 0 > 65535 then None
             else if digitsValue ds 0 = dflt then Some []
             else Some (decimal (digitsValue ds 0)))
          else None)"

definition parseUrl :: url_parser where
  "parseUrl s =
     (case splitScheme s of
        None \<Rightarrow> None
      | Some (proto, dflt, rest) \<Rightarrow>
          (let authority = takeWhile (\<lambda>c. \<not> authorityEnd c) rest;
               afterAuthority = dropWhile (\<lambda>c. \<not> authorityEnd c) rest;
               host = takeWhile (\<lambda>c. c \<noteq> CHR '':'') authority;
               path = takeWhile (\<lambda>c. \<not> pathEnd c) afterAuthority;
               afterPath = dropWhile (\<lambda>c. \<not> pathEnd c) afterAuthority;
               query = (case afterPath of
                          [] \<Rightarrow> []
                        | c # q \<Rightarrow> if c = CHR ''?'' then takeWhile (\<lambda>c. c \<noteq> CHR ''#'') q else []);
               afterQuery = dropWhile (\<lambda>c. c \<noteq> CHR ''#'') afterPath;
               fragment = (case afterQuery of [] \<Rightarrow> [] | c # f \<Rightarrow> f)
           in if validHost host \<and> list_all pathChar path \<and> list_all queryChar query
                 \<and> list_all queryChar fragment
              then (case parsePort dflt (dropWhile (\<lambda>c. c \<noteq> CHR '':'') authority) of
                      None \<Rightarrow> None
                    | Some prt \<Rightarrow>
                        Some \<lparr> protocol = proto,
                               hostname = toLowerCase host,
                               port = prt,
                               pathname = (if path = [] then ''/'' else path),
                               search = (if query = [] then [] else CHR ''?'' # query),
                               hash = (if fragment = [] then [] else CHR ''#'' # fragment) \<rparr>)
              else None))"

section \<open>The sitemap parser (sitemapParser.js)\<close>

text \<open>
  Reading the file or fetching the URL, and parsing the XML, are the environment's: a
  \<open>world\<close> gives, for a path and for a URL, either the message of the error that
  \<^verbatim>\<open>readFileSync\<close>, \<^verbatim>\<open>axios.get\<close> or the XML parser throws, or the parsed document. A
  document is a sitemap index (the \<^verbatim>\<open>loc\<close> text of each \<^verbatim>\<open>sitemap\<close> element, \<open>None\<close>
  where the element has no \<^verbatim>\<open>loc\<close>), a URL set, or has another root. \<^verbatim>\<open>priority\<close> is kept
  as the text that \<^verbatim>\<open>parseFloat\<close> reads. \<^verbatim>\<open>readFileSync\<close> returns or throws;
  \<^verbatim>\<open>axios.get\<close> is called without a timeout, and \<open>httpGet w u = None\<close> says that the
  request for \<open>u\<close> never settles. A world answers the same way each time a path or a
  URL is loaded.
\<close>

record sitemapEntry =
  url :: string
  lastmod :: "string option"
  changefreq :: "string option"
  priority :: "string option"

record urlElement =
  loc :: "string option"
  lastmodText :: "string option"
  changefreqText :: "string option"
  priorityText :: "string option"

datatype sitemapXml = SitemapIndex "string option list" | UrlSet "urlElement list" | OtherRoot

record world =
  readFile :: "string \<Rightarrow> string + sitemapXml"
  httpGet :: "string \<Rightarrow> (string + sitemapXml) option"

definition loadXml :: "world \<Rightarrow> string \<Rightarrow> bool \<Rightarrow> (string + sitemapXml) option" where
  "loadXml w filePath isFile =
     (if isFile then Some (readFile w filePath) else httpGet w filePath)"

text \<open>The message of the \<^verbatim>\<open>TypeError\<close> that \<^verbatim>\<open>x.loc[0]\<close> throws when \<^verbatim>\<open>loc\<close> is missing.\<close>

definition typeError :: string where
  "typeError = ''Cannot read properties of undefined''"

text \<open>\<^verbatim>\<open>urlElements.map(...)\<close>: the first element without \<^verbatim>\<open>loc\<close> throws.\<close>

fun mapUrlElements :: "urlElement list \<Rightarrow> string + sitemapEntry list" where
  "mapUrlElements [] = Inr []"
| "mapUrlElements (e # es) =
     (case loc e of
        None \<Rightarrow> Inl typeError
      | Some l \<Rightarrow>
          (case mapUrlElements es of
             Inl msg \<Rightarrow> Inl msg
           | Inr rest \<Rightarrow>
               Inr (\<lparr>url = l, lastmod = lastmodText e, changefreq = changefreqText e,
                     priority = priorityText e\<rparr> # rest)))"

text \<open>
  The loop over the \<^verbatim>\<open>sitemap\<close> elements of an index. \<open>parse\<close> is the recursive call
  \<^verbatim>\<open>parseSitemap(sitemapUrl, false)\<close>; its result is \<open>None\<close> when the call does not
  return. An error of the nested call is caught and logged, and the loop goes on; a
  missing \<^verbatim>\<open>loc\<close> throws outside the inner \<^verbatim>\<open>try\<close>.
\<close>

fun nestedSitemaps ::
  "(string \<Rightarrow> (string + sitemapEntry list) option) \<Rightarrow> string option list \<Rightarrow> sitemapEntry list
     \<Rightarrow> (string + sitemapEntry list) option" where
  "nestedSitemaps parse [] urls = Some (Inr urls)"
| "nestedSitemaps parse (None # sitemaps) urls = Some (Inl typeError)"
| "nestedSitemaps parse (Some sitemapUrl # sitemaps) urls =
     Option.bind (parse sitemapUrl)
       (\<lambda>r. case r of
               Inl msg \<Rightarrow> nestedSitemaps parse sitemaps urls
             | Inr nestedUrls \<Rightarrow> nestedSitemaps parse sitemaps (urls @ nestedUrls))"

lemma nestedSitemaps_mono [partial_function_mono]:
  assumes "\<And>u. mono_option (\<lambda>f. F f u)"
  shows "mono_option (\<lambda>f. nestedSitemaps (F f) sitemaps urls)"
  using assms
proof (induction sitemaps arbitrary: urls)
  case Nil
  then show ?case by (simp add: option.const_mono)
next
  case (Cons s sitemaps)
  show ?case
  proof (cases s)
    case None
    then show ?thesis by (simp add: option.const_mono)
  next
    case (Some u)
    show ?thesis
      unfolding Some nestedSitemaps.simps
    proof (rule bind_mono)
      show "mono_option (\<lambda>f. F f u)" by (rule Cons.prems)
    next
      fix r :: "string + sitemapEntry list"
      show "mono_option (\<lambda>f. case r of
               Inl msg \<Rightarrow> nestedSitemaps (F f) sitemaps urls
             | Inr nestedUrls \<Rightarrow> nestedSitemaps (F f) sitemaps (urls @ nestedUrls))"
        by (cases r) (simp_all add: Cons.IH Cons.prems)
    qed
  qed
qed

text \<open>The outer \<^verbatim>\<open>catch\<close>: every error is thrown again with a prefix.\<close>

definition rethrow :: "string + 'a \<Rightarrow> string + 'a" where
  "rethrow r = (case r of Inl msg \<Rightarrow> Inl (''Failed to parse sitemap: '' @ msg) | Inr v \<Rightarrow> Inr v)"

text \<open>
  \<^verbatim>\<open>parseSitemap\<close>: \<open>Some (Inr urls)\<close> when it returns \<open>urls\<close>, \<open>Some (Inl msg)\<close> when it
  throws, \<open>None\<close> when it does neither.
\<close>

partial_function (option) parseSitemap ::
  "world \<Rightarrow> string \<Rightarrow> bool \<Rightarrow> (string + sitemapEntry list) option" where
  "parseSitemap w filePath isFile =
     (case loadXml w filePath isFile of
        None \<Rightarrow> None
      | Some (Inl msg) \<Rightarrow> Some (rethrow (Inl msg))
      | Some (Inr (SitemapIndex sitemaps)) \<Rightarrow>
          Option.bind (nestedSitemaps (\<lambda>sitemapUrl. parseSitemap w sitemapUrl False) sitemaps [])
            (\<lambda>r. Some (rethrow r))
      | Some (Inr (UrlSet urlElements)) \<Rightarrow> Some (rethrow (mapUrlElements urlElements))
      | Some (Inr OtherRoot) \<Rightarrow>
          Some (rethrow (Inl ''Invalid sitemap format: no urlset or sitemapindex found'')))"


text \<open>A sitemap index served at one URL that lists its own URL.\<close>

definition selfIndex :: world where
  "selfIndex =
     \<lparr>readFile = (\<lambda>path. Inl ''ENOENT''),
      httpGet = (\<lambda>u. if u = ''http://a.example/sitemap.xml''
                       then Some (Inr (SitemapIndex [Some ''http://a.example/sitemap.xml'']))
                       else Some (Inl ''Request failed with status code 404''))\<rparr>"

text \<open>
  A sitemap index in a file that lists a second index and a sitemap that cannot be
  fetched; the second index lists one URL set. The same server has, listed by neither
  index, a sitemap index that lists the URL set and then its own URL, and a URL whose
  request never settles.
\<close>

definition smallSite :: world where
  "smallSite =
     \<lparr>readFile = (\<lambda>path. if path = ''uploads/sitemap.xml''
                          then Inr (SitemapIndex [Some ''http://a.example/index2.xml'',
                                                  Some ''http://a.example/gone.xml''])
                          else Inl ''ENOENT''),
      httpGet = (\<lambda>u. if u = ''http://a.example/index2.xml''
                       then Some (Inr (SitemapIndex [Some ''http://a.example/pages.xml'']))
                       else if u = ''http://a.example/pages.xml''
                       then Some (Inr (UrlSet [\<lparr>loc = Some ''http://a.example/'',
                                                 lastmodText = None, changefreqText = None,
                                                 priorityText = Some ''0.8''\<rparr>]))
                       else if u = ''http://a.example/loop.xml''
                       then Some (Inr (SitemapIndex [Some ''http://a.example/pages.xml'',
                                                     Some ''http://a.example/loop.xml'']))
                       else if u = ''http://a.example/slow.xml'' then None
                       else Some (Inl ''Request failed with status code 404''))\<rparr>"

section \<open>String similarity (urlComparisonService.js, seoComparisonService.js)\<close>

text \<open>
  \<^verbatim>\<open>levenshteinDistance(str1, str2)\<close> fills \<^verbatim>\<open>matrix[i][j]\<close> for \<open>i \<le> |str2|\<close> and
  \<open>j \<le> |str1|\<close>. Row 0 is \<open>0 .. |str1|\<close>; row \<open>i\<close> starts with \<open>i\<close> and is filled from
  left to right out of the previous row. \<open>matrixRow c2 str1 prev left\<close> computes the
  entries of one row to the right of \<open>left\<close>, where \<open>prev\<close> is the part of the previous
  row starting one column to the left. Both services carry the same function.
\<close>

fun matrixRow :: "char \<Rightarrow> string \<Rightarrow> nat list \<Rightarrow> nat \<Rightarrow> nat list" where
  "matrixRow c2 (c1 # cs) (diag # up # prev) left =
     (let v = (if c2 = c1 then diag else min (diag + 1) (min (left + 1) (up + 1)))
      in v # matrixRow c2 cs (up # prev) v)"
| "matrixRow c2 _ _ left = []"

definition levenshteinDistance :: "string \<Rightarrow> string \<Rightarrow> nat" where
  "levenshteinDistance str1 str2 =
     last (fold (\<lambda>(i, c2) prev. i # matrixRow c2 str1 prev i)
             (zip [1 ..< Suc (length str2)] str2)
             [0 ..< Suc (length str1)])"

text \<open>
  \<^verbatim>\<open>calculateSimilarity\<close>: the quotient is a JavaScript number; it is kept here as the
  exact rational \<open>(|longer| - distance) / |longer|\<close>.
\<close>

definition calculateSimilarity :: "string \<Rightarrow> string \<Rightarrow> rat" where
  "calculateSimilarity str1 str2 =
     (let longer = (if length str1 > length str2 then str1 else str2);
          shorter = (if length str1 > length str2 then str2 else str1)
      in if length longer = 0 then 1
         else (of_nat (length longer) - of_nat (levenshteinDistance longer shorter))
                / of_nat (length longer))"

text \<open>
  \<^verbatim>\<open>findSimilarUrl\<close>: \<^verbatim>\<open>null\<close> is \<open>None\<close>. A target that does not parse returns
  \<^verbatim>\<open>null\<close>; a candidate that does not parse is skipped. The loop state is the pair
  \<^verbatim>\<open>(maxSimilarity, mostSimilar)\<close>.
\<close>

definition similarStep ::
  "url_parser \<Rightarrow> string \<Rightarrow> string \<Rightarrow> rat \<times> string option \<Rightarrow> rat \<times> string option" where
  "similarStep URL targetPath candidateUrl st =
     (case URL candidateUrl of
        None \<Rightarrow> st
      | Some c \<Rightarrow>
          (let similarity = calculateSimilarity targetPath (pathname c)
           in if similarity > fst st \<and> similarity > 1 / 2 then (similarity, Some candidateUrl)
              else st))"

definition findSimilarUrl :: "url_parser \<Rightarrow> string \<Rightarrow> string list \<Rightarrow> string option" where
  "findSimilarUrl URL targetUrl candidateUrls =
     (if candidateUrls = [] then None
      else (case URL targetUrl of
              None \<Rightarrow> None
            | Some t \<Rightarrow> snd (fold (similarStep URL (pathname t)) candidateUrls (0, None))))"

section \<open>JavaScript numbers\<close>

text \<open>
  A JavaScript number is an IEEE-754 double. A finite double is kept here as the rational
  it denotes, and a division or multiplication returns the double nearest to the exact
  quotient or product, the one with the even significand on a tie. For \<open>x > 0\<close>,
  \<open>exponent x\<close> is the \<open>e\<close> with \<open>2 powi e \<le> x < 2 powi (e + 1)\<close>; the doubles between these
  two powers are the multiples of \<open>2 powi (e - 52)\<close>, and the doubles below
  \<open>2 powi (- 1022)\<close> are the multiples of \<open>2 powi (- 1074)\<close>. The operands met here are
  lengths of arrays, which are integers below \<open>2 powi 32\<close> and so doubles, and the number
  100; no operation on them overflows.
\<close>

definition exponent :: "rat \<Rightarrow> int" where
  "exponent x =
     (let (a, b) = quotient_of x; e = bitlen a - bitlen b
      in if 2 powi e \<le> x then e else e - 1)"

definition roundTiesToEven :: "rat \<Rightarrow> int" where
  "roundTiesToEven q =
     (let f = \<lfloor>q\<rfloor>; d = q - of_int f
      in if d < 1 / 2 then f else if 1 / 2 < d then f + 1 else if even f then f else f + 1)"

definition toDouble :: "rat \<Rightarrow> rat" where
  "toDouble x =
     (if x = 0 then 0
      else (let e = max (exponent \<bar>x\<bar>) (- 1022); ulp = 2 powi (e - 52)
            in sgn x * of_int (roundTiesToEven (\<bar>x\<bar> / ulp)) * ulp))"

text \<open>The operators \<^verbatim>\<open>/\<close> and \<^verbatim>\<open>*\<close> on two doubles.\<close>

definition numberDivide :: "rat \<Rightarrow> rat \<Rightarrow> rat" where
  "numberDivide x y = toDouble (x / y)"

definition numberTimes :: "rat \<Rightarrow> rat \<Rightarrow> rat" where
  "numberTimes x y = toDouble (x * y)"

text \<open>
  \<^verbatim>\<open>x.toFixed(2)\<close>, for a double \<open>x\<close> below \<open>10\<^sup>2\<^sup>1\<close> in absolute value: the digits of the
  integer \<open>n\<close> for which \<open>n / 100\<close> is nearest to the exact value of \<open>\<bar>x\<bar>\<close>, the larger \<open>n\<close> on
  a tie, with the decimal point before the last two digits.
\<close>

definition toFixed2 :: "rat \<Rightarrow> string" where
  "toFixed2 x =
     (let n = nat \<lfloor>\<bar>x\<bar> * 100 + 1 / 2\<rfloor>
      in (if x < 0 then ''-'' else []) @ decimal (n div 100) @ ''.''
           @ [digitChar (n mod 100 div 10), digitChar (n mod 10)])"

section \<open>The URL correspondence report (urlComparisonService.js)\<close>

text \<open>
  A JavaScript \<^verbatim>\<open>Map\<close> keeps its keys in the order of their first insertion and the
  value written last; a \<^verbatim>\<open>Set\<close> keeps its members in the order of first insertion.
  Both are lists here, iterated from the head.
\<close>

fun mapSet :: "('k \<times> 'v) list \<Rightarrow> 'k \<Rightarrow> 'v \<Rightarrow> ('k \<times> 'v) list" where
  "mapSet [] k v = [(k, v)]"
| "mapSet ((k', v') # m) k v = (if k' = k then (k', v) # m else (k', v') # mapSet m k v)"

definition newMap :: "('k \<times> 'v) list \<Rightarrow> ('k \<times> 'v) list" where
  "newMap entries = fold (\<lambda>(k, v) m. mapSet m k v) entries []"

definition setAdd :: "'a list \<Rightarrow> 'a \<Rightarrow> 'a list" where
  "setAdd s x = (if x \<in> set s then s else s @ [x])"

definition newSet :: "'a list \<Rightarrow> 'a list" where
  "newSet xs = fold (\<lambda>x s. setAdd s x) xs []"

record urlEntry =
  oldUrl :: string

record matchEntry = urlEntry +
  newUrl :: string
  matchType :: string

record missingEntry = urlEntry +
  suggestion :: "string option"

record newEntry =
  newEntryUrl :: string
  entryType :: string

text \<open>
  \<^verbatim>\<open>matchRate\<close> starts as the number 0 and becomes the string that
  \<^verbatim>\<open>toFixed(2)\<close> returns when there are old URLs.
\<close>

datatype jsValue = Num rat | Str string

record comparisonSummary =
  totalOldUrls :: nat
  totalNewUrls :: nat
  matchedCount :: nat
  missingCount :: nat
  newCount :: nat
  redirectedCount :: nat
  matchRate :: jsValue

record comparison =
  matched :: "matchEntry list"
  missing :: "missingEntry list"
  new :: "newEntry list"
  redirected :: "matchEntry list"
  summary :: comparisonSummary

text \<open>
  The redirect map is a \<^verbatim>\<open>Map\<close> or \<^verbatim>\<open>null\<close>: \<open>redirectGet\<close> is
  \<^verbatim>\<open>redirectMap && redirectMap.has(k)\<close> together with \<^verbatim>\<open>redirectMap.get(k)\<close>.
\<close>

type_synonym redirectMap = "(string \<times> string) list option"

definition redirectGet :: "redirectMap \<Rightarrow> string \<Rightarrow> string option" where
  "redirectGet redirectMap k = (case redirectMap of None \<Rightarrow> None | Some m \<Rightarrow> map_of m k)"

text \<open>The body of the loop over the entries of \<^verbatim>\<open>normalizedOldUrls\<close>.\<close>

definition checkOldUrl ::
  "url_parser \<Rightarrow> string list \<Rightarrow> redirectMap \<Rightarrow> string \<times> string \<Rightarrow> comparison \<Rightarrow> comparison" where
  "checkOldUrl URL normalizedNewUrls redirectMap entry results =
     (case entry of (normalizedOld, originalOld) \<Rightarrow>
        if normalizedOld \<in> set normalizedNewUrls then
          results\<lparr>matched := matched results
            @ [\<lparr>oldUrl = originalOld, newUrl = originalOld, matchType = ''direct''\<rparr>]\<rparr>
        else
          (case redirectGet redirectMap originalOld of
             Some mappedUrl \<Rightarrow>
               if normalizeUrl URL mappedUrl \<in> set normalizedNewUrls then
                 results\<lparr>redirected := redirected results
                   @ [\<lparr>oldUrl = originalOld, newUrl = mappedUrl, matchType = ''mapped''\<rparr>]\<rparr>
               else
                 results\<lparr>missing := missing results
                   @ [\<lparr>oldUrl = originalOld,
                       suggestion = findSimilarUrl URL normalizedOld normalizedNewUrls\<rparr>]\<rparr>
           | None \<Rightarrow>
               results\<lparr>missing := missing results
                 @ [\<lparr>oldUrl = originalOld,
                     suggestion = findSimilarUrl URL normalizedOld normalizedNewUrls\<rparr>]\<rparr>))"

text \<open>The body of the loop over \<^verbatim>\<open>newUrls\<close>.\<close>

definition isRedirectTarget :: "url_parser \<Rightarrow> redirectMap \<Rightarrow> string \<Rightarrow> bool" where
  "isRedirectTarget URL redirectMap normalized =
     (case redirectMap of
        None \<Rightarrow> False
      | Some m \<Rightarrow> list_ex (\<lambda>mappedUrl. normalizeUrl URL mappedUrl = normalized) (map snd m))"

definition checkNewUrl ::
  "url_parser \<Rightarrow> (string \<times> string) list \<Rightarrow> redirectMap \<Rightarrow> string \<Rightarrow> comparison \<Rightarrow> comparison" where
  "checkNewUrl URL normalizedOldUrls redirectMap u results =
     (let normalized = normalizeUrl URL u
      in if normalized \<notin> set (map fst normalizedOldUrls)
            \<and> \<not> isRedirectTarget URL redirectMap normalized
         then results\<lparr>new := new results @ [\<lparr>newEntryUrl = u, entryType = ''new_content''\<rparr>]\<rparr>
         else results)"

text \<open>The summary statistics written at the end of \<^verbatim>\<open>compareUrls\<close>.\<close>

definition summarize :: "string list \<Rightarrow> comparison \<Rightarrow> comparison" where
  "summarize oldUrls results =
     results\<lparr>summary := (summary results)
       \<lparr>matchedCount := length (matched results),
        missingCount := length (missing results),
        newCount := length (new results),
        redirectedCount := length (redirected results),
        matchRate :=
          (if length oldUrls > 0
           then Str (toFixed2
                  (numberTimes
                     (numberDivide (of_nat (length (matched results) + length (redirected results)))
                        (of_nat (length oldUrls)))
                     100))
           else Num 0)\<rparr>\<rparr>"

definition initialResults :: "string list \<Rightarrow> string list \<Rightarrow> comparison" where
  "initialResults oldUrls newUrls =
     \<lparr>matched = [], missing = [], new = [], redirected = [],
      summary = \<lparr>totalOldUrls = length oldUrls, totalNewUrls = length newUrls,
                  matchedCount = 0, missingCount = 0, newCount = 0,
                  redirectedCount = 0, matchRate = Num 0\<rparr>\<rparr>"

definition compareUrls ::
  "url_parser \<Rightarrow> string list \<Rightarrow> string list \<Rightarrow> redirectMap \<Rightarrow> comparison" where
  "compareUrls URL oldUrls newUrls redirectMap =
     (let normalizedOldUrls = newMap (map (\<lambda>u. (normalizeUrl URL u, u)) oldUrls);
          normalizedNewUrls = newSet (map (normalizeUrl URL) newUrls);
          results1 = fold (checkOldUrl URL normalizedNewUrls redirectMap) normalizedOldUrls
                       (initialResults oldUrls newUrls);
          results2 = fold (checkNewUrl URL normalizedOldUrls redirectMap) newUrls results1
      in summarize oldUrls results2)"

section \<open>The status checker (statusChecker.js)\<close>

text \<open>
  The object that \<^verbatim>\<open>checkUrlStatus\<close> returns. \<^verbatim>\<open>statusCode\<close> is the HTTP status of the
  response, or 0 when the request failed without a response; \<^verbatim>\<open>responseTime\<close> is a
  difference of two \<^verbatim>\<open>Date.now()\<close> readings, in milliseconds.
\<close>

record redirectHop =
  url :: string
  statusCode :: int
  index :: nat

record probeError =
  message :: string
  code :: "string option"
  type :: string

record probeResult =
  url :: string
  statusCode :: int
  statusText :: string
  responseTime :: int
  finalUrl :: string
  isRedirect :: bool
  redirectChain :: "redirectHop list"
  contentType :: "string option"
  contentLength :: "string option"
  server :: "string option"
  timestamp :: string
  error :: "probeError option"

text \<open>
  The retry loop of one queued task of \<^verbatim>\<open>checkMultipleUrls\<close>. \<^verbatim>\<open>checkUrlStatus\<close> is a
  network request: \<open>responses k\<close> is what its \<open>k\<close>-th call for this URL returns
  (counting from 0). The state holds \<^verbatim>\<open>result\<close> (\<^verbatim>\<open>null\<close> is \<open>None\<close>), \<^verbatim>\<open>attempts\<close>, the
  number of calls made so far and the delays of the \<^verbatim>\<open>setTimeout\<close> sleeps taken so far.
\<close>

record retryState =
  result :: "probeResult option"
  attempts :: int
  calls :: nat
  sleeps :: "int list"

definition retryStart :: retryState where
  "retryStart = \<lparr>result = None, attempts = 0, calls = 0, sleeps = []\<rparr>"

function retryLoop :: "(nat \<Rightarrow> probeResult) \<Rightarrow> int \<Rightarrow> int \<Rightarrow> retryState \<Rightarrow> retryState" where
  "retryLoop responses retryAttempts delay st =
     (if attempts st < retryAttempts then
        (let r = responses (calls st);
             st1 = st\<lparr>result := Some r, calls := Suc (calls st)\<rparr>
         in if statusCode r = 0 \<or> statusCode r \<ge> 500 then
              (let st2 = st1\<lparr>attempts := attempts st1 + 1\<rparr>
               in if attempts st2 < retryAttempts
                  then retryLoop responses retryAttempts delay
                         (st2\<lparr>sleeps := sleeps st2 @ [delay * attempts st2]\<rparr>)
                  else st2)
            else st1)
      else st)"
  by pat_completeness auto
termination
  by (relation "measure (\<lambda>(responses, retryAttempts, delay, st). nat (retryAttempts - attempts st))")
     auto

declare retryLoop.simps [simp del]

text \<open>
  The rest of the task: the result is pushed, \<^verbatim>\<open>completed\<close> is incremented, the progress
  callback is called when there is one, and the task sleeps \<^verbatim>\<open>delay\<close> before the queue
  starts the next one. The interleaving of the tasks of a batch is not part of this model.
  \<^verbatim>\<open>completed / urls.length\<close> is \<^verbatim>\<open>Infinity\<close> when the array is empty.
\<close>

record progress =
  completed :: nat
  total :: nat
  percentage :: string
  currentUrl :: string

record batch =
  results :: "probeResult option list"
  completed :: nat
  reported :: "progress list"
  timers :: "int list"

definition checkTask ::
  "(nat \<Rightarrow> probeResult) \<Rightarrow> int \<Rightarrow> int \<Rightarrow> bool \<Rightarrow> string list \<Rightarrow> string \<Rightarrow> batch \<Rightarrow> batch" where
  "checkTask responses retryAttempts delay onProgress urls u b =
     (let st = retryLoop responses retryAttempts delay retryStart;
          count = Suc (batch.completed b)
      in \<lparr>results = results b @ [result st],
          completed = count,
          reported = reported b
            @ (if onProgress
               then [\<lparr>progress.completed = count, total = length urls,
                      percentage =
                        (if urls = [] then ''Infinity''
                         else toFixed2
                                (numberTimes (numberDivide (of_nat count) (of_nat (length urls)))
                                   100)),
                      currentUrl = u\<rparr>]
               else []),
          timers = timers b @ sleeps st @ [delay]\<rparr>)"

text \<open>\<^verbatim>\<open>Math.round\<close>: the nearest integer, the larger one on a tie.\<close>

definition mathRound :: "rat \<Rightarrow> int" where
  "mathRound x = \<lfloor>x + 1 / 2\<rfloor>"

record statusSummary =
  total :: nat
  okCount :: nat
  redirectCount :: nat
  clientErrorCount :: nat
  serverErrorCount :: nat
  networkErrorCount :: nat
  avgResponseTime :: int

record categorized =
  ok :: "probeResult list"
  redirects :: "probeResult list"
  clientErrors :: "probeResult list"
  serverErrors :: "probeResult list"
  networkErrors :: "probeResult list"
  summary :: statusSummary

text \<open>The body of the loop of \<^verbatim>\<open>categorizeResults\<close>; the state also carries \<^verbatim>\<open>totalResponseTime\<close>.\<close>

definition categorizeStep :: "probeResult \<Rightarrow> categorized \<times> int \<Rightarrow> categorized \<times> int" where
  "categorizeStep r st =
     (let c = fst st; s = summary c; totalResponseTime = snd st + responseTime r
      in if statusCode r = 200 then
           (c\<lparr>ok := ok c @ [r], summary := s\<lparr>okCount := Suc (okCount s)\<rparr>\<rparr>, totalResponseTime)
         else if statusCode r \<ge> 300 \<and> statusCode r < 400 then
           (c\<lparr>redirects := redirects c @ [r],
              summary := s\<lparr>redirectCount := Suc (redirectCount s)\<rparr>\<rparr>, totalResponseTime)
         else if statusCode r \<ge> 400 \<and> statusCode r < 500 then
           (c\<lparr>clientErrors := clientErrors c @ [r],
              summary := s\<lparr>clientErrorCount := Suc (clientErrorCount s)\<rparr>\<rparr>, totalResponseTime)
         else if statusCode r \<ge> 500 then
           (c\<lparr>serverErrors := serverErrors c @ [r],
              summary := s\<lparr>serverErrorCount := Suc (serverErrorCount s)\<rparr>\<rparr>, totalResponseTime)
         else
           (c\<lparr>networkErrors := networkErrors c @ [r],
              summary := s\<lparr>networkErrorCount := Suc (networkErrorCount s)\<rparr>\<rparr>, totalResponseTime))"

definition categorizeResults :: "probeResult list \<Rightarrow> categorized" where
  "categorizeResults rs =
     (let start = \<lparr>ok = [], redirects = [], clientErrors = [], serverErrors = [],
                    networkErrors = [],
                    summary = \<lparr>total = length rs, okCount = 0, redirectCount = 0,
                                clientErrorCount = 0, serverErrorCount = 0,
                                networkErrorCount = 0, avgResponseTime = 0\<rparr>\<rparr>;
          st = fold categorizeStep rs (start, 0);
          c = fst st
      in c\<lparr>summary := (summary c)
            \<lparr>avgResponseTime :=
               (if length rs > 0 then mathRound (of_int (snd st) / of_nat (length rs)) else 0)\<rparr>\<rparr>)"

text \<open>A probe result with a given status code, for evaluating the functions.\<close>

definition exampleResult :: "int \<Rightarrow> probeResult" where
  "exampleResult s =
     \<lparr>url = ''http://a.example/'', statusCode = s, statusText = '''', responseTime = 120,
      finalUrl = ''http://a.example/'', isRedirect = (300 \<le> s \<and> s < 400), redirectChain = [],
      contentType = None, contentLength = None, server = None,
      timestamp = ''2024-01-01T00:00:00.000Z'', error = None\<rparr>"

section \<open>Title and description comparison (seoComparisonService.js)\<close>

text \<open>
  A title or description is a string, \<^verbatim>\<open>null\<close> or \<^verbatim>\<open>undefined\<close>; the last two are
  \<open>None\<close>. \<^verbatim>\<open>!x\<close> holds of \<^verbatim>\<open>null\<close>, \<^verbatim>\<open>undefined\<close> and the empty string.
\<close>

definition textOf :: "string option \<Rightarrow> string" where
  "textOf x = (case x of None \<Rightarrow> [] | Some s \<Rightarrow> s)"

definition falsy :: "string option \<Rightarrow> bool" where
  "falsy x = (textOf x = [])"

text \<open>\<^verbatim>\<open>calculateTextSimilarity\<close>, on two strings; the quotient is exact.\<close>

definition calculateTextSimilarity :: "string \<Rightarrow> string \<Rightarrow> rat" where
  "calculateTextSimilarity str1 str2 =
     (if str1 = [] \<or> str2 = [] then 0
      else if str1 = str2 then 1
      else (let longer = (if length str1 > length str2 then str1 else str2);
                shorter = (if length str1 > length str2 then str2 else str1)
            in if length longer = 0 then 1
               else (of_nat (length longer) - of_nat (levenshteinDistance longer shorter))
                      / of_nat (length longer)))"

record fieldComparison =
  match :: bool
  similarity :: rat
  issue :: "string option"

text \<open>
  \<^verbatim>\<open>compareTitles\<close> and \<^verbatim>\<open>compareDescriptions\<close> differ in the texts of their issues and
  in the length difference they tolerate (20 and 30). \<^verbatim>\<open>toLowerCase\<close> is taken on ASCII.
\<close>

definition compareTitles :: "string option \<Rightarrow> string option \<Rightarrow> fieldComparison" where
  "compareTitles oldTitle newTitle =
     (if falsy oldTitle \<and> falsy newTitle then
        \<lparr>match = True, similarity = 1, issue = None\<rparr>
      else if falsy oldTitle then
        \<lparr>match = False, similarity = 0, issue = Some ''Old page missing title tag''\<rparr>
      else if falsy newTitle then
        \<lparr>match = False, similarity = 0, issue = Some ''New page missing title tag''\<rparr>
      else
        (let sim = calculateTextSimilarity (toLowerCase (textOf oldTitle))
                     (toLowerCase (textOf newTitle));
             lengthDiff = \<bar>int (length (textOf oldTitle)) - int (length (textOf newTitle))\<bar>
         in \<lparr>match = (sim \<ge> 8 / 10),
             similarity = of_int (mathRound (sim * 100)) / 100,
             issue = (if sim < 1 / 2 then Some ''Title significantly changed''
                      else if lengthDiff > 20 then Some ''Title length differs significantly''
                      else if sim < 8 / 10 then Some ''Title partially changed''
                      else None)\<rparr>))"

definition compareDescriptions :: "string option \<Rightarrow> string option \<Rightarrow> fieldComparison" where
  "compareDescriptions oldDesc newDesc =
     (if falsy oldDesc \<and> falsy newDesc then
        \<lparr>match = True, similarity = 1, issue = None\<rparr>
      else if falsy oldDesc then
        \<lparr>match = False, similarity = 0, issue = Some ''Old page missing meta description''\<rparr>
      else if falsy newDesc then
        \<lparr>match = False, similarity = 0, issue = Some ''New page missing meta description''\<rparr>
      else
        (let sim = calculateTextSimilarity (toLowerCase (textOf oldDesc))
                     (toLowerCase (textOf newDesc));
             lengthDiff = \<bar>int (length (textOf oldDesc)) - int (length (textOf newDesc))\<bar>
         in \<lparr>match = (sim \<ge> 8 / 10),
             similarity = of_int (mathRound (sim * 100)) / 100,
             issue = (if sim < 1 / 2 then Some ''Description significantly changed''
                      else if lengthDiff > 30 then Some ''Description length differs significantly''
                      else if sim < 8 / 10 then Some ''Description partially changed''
                      else None)\<rparr>))"

section \<open>Notions used in the proofs\<close>

text \<open>
  A call \<^verbatim>\<open>parseSitemap(filePath, isFile)\<close> is the pair \<open>(filePath, isFile)\<close>. The pairs
  (nested call, call) of \<open>indexRefs\<close>: the call loads a sitemap index, and the loop over
  its entries comes to the URL of the nested call, which is listed before any entry
  without \<^verbatim>\<open>loc\<close>. \<open>reachableCalls\<close> are the calls that a first call leads to through
  such pairs, itself included, and \<open>nestedCalls\<close> are the pairs among them.
\<close>

definition indexRefs :: "world \<Rightarrow> ((string \<times> bool) \<times> (string \<times> bool)) set" where
  "indexRefs w =
     {((v, False), (filePath, isFile)) | v filePath isFile sitemaps.
        loadXml w filePath isFile = Some (Inr (SitemapIndex sitemaps))
        \<and> Some v \<in> set (takeWhile (\<lambda>s. s \<noteq> None) sitemaps)}"

definition reachableCalls :: "world \<Rightarrow> string \<Rightarrow> bool \<Rightarrow> (string \<times> bool) set" where
  "reachableCalls w filePath isFile = {c. (c, (filePath, isFile)) \<in> (indexRefs w)\<^sup>*}"

definition nestedCalls ::
  "world \<Rightarrow> string \<Rightarrow> bool \<Rightarrow> ((string \<times> bool) \<times> (string \<times> bool)) set" where
  "nestedCalls w filePath isFile =
     {(c', c). (c', c) \<in> indexRefs w \<and> c \<in> reachableCalls w filePath isFile}"

text \<open>How the loop body classifies one entry of \<^verbatim>\<open>normalizedOldUrls\<close>.\<close>

definition redirectTarget ::
  "url_parser \<Rightarrow> string list \<Rightarrow> redirectMap \<Rightarrow> string \<times> string \<Rightarrow> string option" where
  "redirectTarget URL N rm e =
     (if fst e \<in> set N then None
      else (case redirectGet rm (snd e) of
              None \<Rightarrow> None
            | Some mappedUrl \<Rightarrow>
                if normalizeUrl URL mappedUrl \<in> set N then Some mappedUrl else None))"

definition directEntry :: "string \<times> string \<Rightarrow> matchEntry" where
  "directEntry e = \<lparr>oldUrl = snd e, newUrl = snd e, matchType = ''direct''\<rparr>"

definition mappedEntries ::
  "url_parser \<Rightarrow> string list \<Rightarrow> redirectMap \<Rightarrow> string \<times> string \<Rightarrow> matchEntry list" where
  "mappedEntries URL N rm e =
     (case redirectTarget URL N rm e of
        None \<Rightarrow> []
      | Some mappedUrl \<Rightarrow> [\<lparr>oldUrl = snd e, newUrl = mappedUrl, matchType = ''mapped''\<rparr>])"

definition missingEntryOf :: "url_parser \<Rightarrow> string list \<Rightarrow> string \<times> string \<Rightarrow> missingEntry" where
  "missingEntryOf URL N e = \<lparr>oldUrl = snd e, suggestion = findSimilarUrl URL (fst e) N\<rparr>"

text \<open>
  The state of the loop in \<^verbatim>\<open>findSimilarUrl\<close> is either the initial one or names a
  candidate of the list whose path similarity is the current maximum and exceeds 0.5.
\<close>

definition bestSoFar :: "url_parser \<Rightarrow> string \<Rightarrow> string set \<Rightarrow> rat \<times> string option \<Rightarrow> bool" where
  "bestSoFar URL tp S st =
     (st = (0, None)
      \<or> (\<exists>s c. snd st = Some s \<and> s \<in> S \<and> URL s = Some c
                 \<and> calculateSimilarity tp (pathname c) = fst st \<and> fst st > 1 / 2))"

definition retryable :: "probeResult \<Rightarrow> bool" where
  "retryable r = (statusCode r = 0 \<or> statusCode r \<ge> 500)"

text \<open>What holds of the state each time the loop condition is tested.\<close>

definition atLoopHead :: "(nat \<Rightarrow> probeResult) \<Rightarrow> int \<Rightarrow> retryState \<Rightarrow> bool" where
  "atLoopHead responses delay st =
     (attempts st = int (calls st)
      \<and> sleeps st = map (\<lambda>k. delay * int k) [1 ..< Suc (calls st)]
      \<and> list_all (\<lambda>j. retryable (responses j)) [0 ..< calls st]
      \<and> result st = (if calls st = 0 then None else Some (responses (calls st - 1))))"

text \<open>What holds of the state when the loop is left after at least one call.\<close>

definition atLoopExit :: "(nat \<Rightarrow> probeResult) \<Rightarrow> int \<Rightarrow> int \<Rightarrow> retryState \<Rightarrow> bool" where
  "atLoopExit responses retryAttempts delay st =
     (0 < calls st \<and> int (calls st) \<le> retryAttempts
      \<and> sleeps st = map (\<lambda>k. delay * int k) [1 ..< calls st]
      \<and> list_all (\<lambda>j. retryable (responses j)) [0 ..< calls st - 1]
      \<and> (int (calls st) < retryAttempts \<longrightarrow> \<not> retryable (responses (calls st - 1)))
      \<and> result st = Some (responses (calls st - 1)))"

section \<open>Evaluation on literal inputs\<close>

lemmas parseUrl_eval =
  parseUrl_def splitScheme_def authorityEnd_def pathEnd_def parsePort_def validHost_def
  isAlnum_def isDigit_def isLower_def isUpper_def charCode_def pathChar_def queryChar_def
  toLowerCase_def lowerChar_def digitChar_def decimal.simps

lemmas normalizeUrl_eval =
  normalizeUrl_def stripWww_def stripTrailingSlash_def endsWith_def

lemmas compareUrls_eval =
  compareUrls_def newMap_def newSet_def setAdd_def checkOldUrl_def checkNewUrl_def
  isRedirectTarget_def summarize_def initialResults_def redirectGet_def Let_def

lemmas similarity_eval =
  findSimilarUrl_def similarStep_def calculateSimilarity_def levenshteinDistance_def

lemma floor_numeral_quotient:
  "\<lfloor>(numeral a :: rat) / numeral b\<rfloor> = numeral a div numeral b"
  using floor_divide_of_int_eq [of "numeral a" "numeral b", where ?'a = rat] by simp

lemmas toFixed2_eval = toFixed2_def floor_numeral_quotient digitChar_def decimal.simps

lemmas toDouble_eval = roundTiesToEven_def Let_def floor_numeral_quotient power_int_def power_divide

section \<open>Rounding to a double\<close>

lemma bitlen_powi:
  assumes "0 < a"
  shows "2 powi (bitlen a - 1) \<le> (of_int a :: rat)" "(of_int a :: rat) < 2 powi (bitlen a)"
proof -
  from bitlen_bounds [OF assms]
  have b: "2 ^ nat (bitlen a - 1) \<le> a" "a < 2 ^ nat (bitlen a)" by auto
  have pos: "1 \<le> bitlen a"
    using assms bitlen_eq_zero_iff [of a] bitlen_nonneg [of a] by linarith
  have "(of_int (2 ^ nat (bitlen a - 1)) :: rat) \<le> of_int a"
    using b(1) by (simp only: of_int_le_iff)
  then show "2 powi (bitlen a - 1) \<le> (of_int a :: rat)"
    using pos by (simp add: power_int_def)
  have "(of_int a :: rat) < of_int (2 ^ nat (bitlen a))"
    using b(2) by (simp only: of_int_less_iff)
  then show "(of_int a :: rat) < 2 powi (bitlen a)"
    using pos by (simp add: power_int_def)
qed

text \<open>\<open>exponent x\<close> is the exponent of the power of two at or below \<open>x\<close>.\<close>

lemma exponent_bounds:
  assumes "0 < x"
  shows "2 powi exponent x \<le> x" "x < 2 powi (exponent x + 1)"
proof -
  obtain a b where q: "quotient_of x = (a, b)" by (cases "quotient_of x")
  have b: "0 < b" using q quotient_of_denom_pos by blast
  have x: "x = of_int a / of_int b" using q by (rule quotient_of_div)
  have a: "0 < a" using assms b unfolding x by (simp add: zero_less_divide_iff)
  note A = bitlen_powi [OF a] and B = bitlen_powi [OF b]
  have B0: "(0::rat) < of_int b" using b by simp
  have lower: "2 powi (bitlen a - bitlen b - 1) \<le> x"
  proof -
    have "2 powi (bitlen a - bitlen b - 1) = (2 powi (bitlen a - 1) :: rat) / 2 powi (bitlen b)"
      by (simp add: power_int_diff)
    also have "\<dots> \<le> of_int a / 2 powi (bitlen b)"
      using A(1) by (simp add: divide_right_mono)
    also have "\<dots> \<le> of_int a / of_int b"
      using B(2) B0 a by (simp add: frac_le)
    finally show ?thesis unfolding x .
  qed
  have upper: "x < 2 powi (bitlen a - bitlen b + 1)"
  proof -
    have "x = of_int a / of_int b" by (rule x)
    also have "\<dots> < 2 powi (bitlen a) / of_int b"
      using A(2) B0 by (simp add: divide_strict_right_mono)
    also have "\<dots> \<le> 2 powi (bitlen a) / 2 powi (bitlen b - 1)"
      using B(1) by (simp add: frac_le)
    also have "\<dots> = 2 powi (bitlen a - bitlen b + 1)"
      by (simp add: power_int_diff power_int_add)
    finally show ?thesis .
  qed
  show "2 powi exponent x \<le> x"
    using lower by (simp add: exponent_def q Let_def)
  show "x < 2 powi (exponent x + 1)"
    using upper by (simp add: exponent_def q Let_def not_le)
qed

lemma exponent_unique:
  assumes "2 powi e \<le> x" "x < 2 powi (e + 1)"
  shows "exponent x = e"
proof -
  have "(0::rat) < 2 powi e" by simp
  then have pos: "0 < x" using assms(1) by (rule less_le_trans)
  note E = exponent_bounds [OF pos]
  have "(2::rat) powi e < 2 powi (exponent x + 1)" using assms(1) E(2) by simp
  then have 1: "e < exponent x + 1"
    using power_int_increasing [of "exponent x + 1" e "2::rat"]
    by (cases "e < exponent x + 1") simp_all
  have "(2::rat) powi exponent x < 2 powi (e + 1)" using assms(2) E(1) by simp
  then have 2: "exponent x < e + 1"
    using power_int_increasing [of "e + 1" "exponent x" "2::rat"]
    by (cases "exponent x < e + 1") simp_all
  from 1 2 show ?thesis by simp
qed

lemma roundTiesToEven_error: "\<bar>of_int (roundTiesToEven q) - q\<bar> \<le> 1 / 2"
  unfolding roundTiesToEven_def Let_def by (auto simp: abs_if) linarith+

text \<open>The double of a number whose exponent is known.\<close>

lemma toDouble_eq:
  assumes "2 powi e \<le> x" "x < 2 powi (e + 1)" "- 1022 \<le> e"
  shows "toDouble x = of_int (roundTiesToEven (x / 2 powi (e - 52))) * 2 powi (e - 52)"
proof -
  have "(0::rat) < 2 powi e" by simp
  then have pos: "0 < x" using assms(1) by (rule less_le_trans)
  from exponent_unique [OF assms(1,2)] pos assms(3) show ?thesis
    by (simp add: toDouble_def Let_def max_def)
qed

text \<open>
  Rounding to a double moves a number by at most half a unit in the last place: by a
  relative \<open>1 / 2 ^ 53\<close>, or by \<open>1 / 2 ^ 1075\<close> below the smallest normal double.
\<close>

lemma toDouble_error: "\<bar>toDouble x - x\<bar> \<le> max (\<bar>x\<bar> / 2 ^ 53) (1 / 2 ^ 1075)"
proof (cases "x = 0")
  case True
  then show ?thesis by (simp add: toDouble_def)
next
  case False
  define e where "e = max (exponent \<bar>x\<bar>) (- 1022)"
  define ulp :: rat where "ulp = 2 powi (e - 52)"
  define n where "n = roundTiesToEven (\<bar>x\<bar> / ulp)"
  have ulp: "0 < ulp" by (simp add: ulp_def)
  have d: "toDouble x = sgn x * of_int n * ulp"
    using False by (simp add: toDouble_def Let_def e_def ulp_def n_def)
  have "toDouble x - x = sgn x * (of_int n * ulp - \<bar>x\<bar>)"
    unfolding d using False by (cases "0 < x") (simp_all add: algebra_simps)
  then have "\<bar>toDouble x - x\<bar> = \<bar>of_int n * ulp - \<bar>x\<bar>\<bar>"
    using False by (simp add: abs_mult)
  also have "of_int n * ulp - \<bar>x\<bar> = (of_int n - \<bar>x\<bar> / ulp) * ulp"
    using ulp by (simp add: field_simps)
  also have "\<bar>(of_int n - \<bar>x\<bar> / ulp) * ulp\<bar> = \<bar>of_int n - \<bar>x\<bar> / ulp\<bar> * ulp"
    using ulp by (simp only: abs_mult abs_of_pos)
  also have "\<dots> \<le> 1 / 2 * ulp"
    using roundTiesToEven_error [of "\<bar>x\<bar> / ulp"] ulp unfolding n_def
    by (intro mult_right_mono) simp_all
  finally have err: "\<bar>toDouble x - x\<bar> \<le> ulp / 2" by simp
  have half: "ulp / 2 = 2 powi (e - 53)"
    by (simp add: ulp_def power_int_diff)
  show ?thesis
  proof (cases "- 1022 \<le> exponent \<bar>x\<bar>")
    case True
    then have e: "e = exponent \<bar>x\<bar>" by (simp add: e_def)
    have "0 < \<bar>x\<bar>" using False by simp
    from exponent_bounds(1) [OF this] have "2 powi e \<le> \<bar>x\<bar>" by (simp add: e)
    then have "2 powi e / 2 ^ 53 \<le> \<bar>x\<bar> / 2 ^ 53" by (simp add: divide_right_mono)
    moreover have "(2::rat) powi (e - 53) = 2 powi e / 2 ^ 53"
      by (simp add: power_int_diff)
    ultimately have "\<bar>toDouble x - x\<bar> \<le> \<bar>x\<bar> / 2 ^ 53"
      using err half by (simp only:)
    then show ?thesis by (rule max.coboundedI1)
  next
    case False
    then have "e = - 1022" by (simp add: e_def)
    then have "e - 53 = - int 1075" by simp
    then have "ulp / 2 = 1 / 2 ^ 1075"
      unfolding half by (simp only: power_int_minus power_int_of_nat inverse_eq_divide)
    with err have "\<bar>toDouble x - x\<bar> \<le> 1 / 2 ^ 1075" by (simp only:)
    then show ?thesis by (rule max.coboundedI2)
  qed
qed

text \<open>
  The percentage \<^verbatim>\<open>k / n * 100\<close> of a part \<open>k\<close> of \<open>n\<close>, as the doubles compute it, is within
  \<open>1 / 2 ^ 44\<close> of the exact percentage.
\<close>

lemma percentage_error:
  assumes "k \<le> n" "0 < n"
  shows "\<bar>numberTimes (numberDivide (of_nat k) (of_nat n)) 100 - of_nat k / of_nat n * 100\<bar>
           \<le> 1 / 2 ^ 44"
proof -
  define q :: rat where "q = of_nat k / of_nat n"
  define d where "d = toDouble q"
  define eps :: rat where "eps = 1 / 2 ^ 53"
  have eps: "0 < eps" "eps \<le> 1" by (simp_all add: eps_def)
  have q: "0 \<le> q" "q \<le> 1" using assms by (simp_all add: q_def)
  have small: "(1::rat) / 2 ^ 1075 \<le> eps"
    unfolding eps_def by (intro divide_left_mono power_increasing) simp_all
  have scale: "\<bar>x\<bar> / 2 ^ 53 = \<bar>x\<bar> * eps" for x :: rat
    by (simp add: eps_def)
  have "\<bar>q\<bar> * eps \<le> 1 * eps" using q eps by (intro mult_right_mono) simp_all
  then have "max (\<bar>q\<bar> / 2 ^ 53) (1 / 2 ^ 1075) \<le> eps"
    using small unfolding scale by simp
  with toDouble_error [of q] have dq: "\<bar>d - q\<bar> \<le> eps"
    unfolding d_def by (rule order_trans)
  with q eps have d: "\<bar>d\<bar> \<le> 2" by (simp only: abs_le_iff) linarith
  have "\<bar>d * 100\<bar> * eps = (\<bar>d\<bar> * eps) * 100" by (simp add: abs_mult)
  also have "\<dots> \<le> (2 * eps) * 100" using d eps by (intro mult_right_mono) simp_all
  finally have "\<bar>d * 100\<bar> * eps \<le> 200 * eps" by simp
  moreover have "(1::rat) / 2 ^ 1075 \<le> 200 * eps" using small eps by linarith
  ultimately have "max (\<bar>d * 100\<bar> / 2 ^ 53) (1 / 2 ^ 1075) \<le> 200 * eps"
    unfolding scale by (rule max.boundedI)
  with toDouble_error [of "d * 100"]
  have e2: "\<bar>toDouble (d * 100) - d * 100\<bar> \<le> 200 * eps"
    by (rule order_trans)
  have "\<bar>toDouble (d * 100) - q * 100\<bar> \<le> 300 * eps"
    using dq e2 by (simp only: abs_le_iff) linarith
  also have "\<dots> \<le> 1 / 2 ^ 44" by (simp add: eps_def)
  finally show ?thesis
    by (simp only: numberTimes_def numberDivide_def d_def q_def)
qed

text \<open>
  Three percentages. The last one is where the double and the exact percentage part:
  \<open>23 / 160 * 100\<close> is \<open>14.375\<close>, the double is just below it.
\<close>

lemma percentage_1_of_1: "toFixed2 (numberTimes (numberDivide 1 1) 100) = ''100.00''"
proof -
  have d: "numberDivide 1 1 = 1"
    unfolding numberDivide_def by (subst toDouble_eq [of 0]) (simp_all add: toDouble_eval)
  have t: "numberTimes 1 100 = 100"
    unfolding numberTimes_def by (subst toDouble_eq [of 6]) (simp_all add: toDouble_eval)
  show ?thesis unfolding d t by (simp add: toFixed2_eval)
qed

lemma percentage_2_of_3: "toFixed2 (numberTimes (numberDivide 2 3) 100) = ''66.67''"
proof -
  have d: "numberDivide 2 3 = 6004799503160661 / 9007199254740992"
    unfolding numberDivide_def by (subst toDouble_eq [of "- 1"]) (simp_all add: toDouble_eval)
  have t: "numberTimes (6004799503160661 / 9007199254740992) 100
             = 2345624805922133 / 35184372088832"
    unfolding numberTimes_def by (subst toDouble_eq [of 6]) (simp_all add: toDouble_eval)
  show ?thesis unfolding d t by (simp add: toFixed2_eval)
qed

lemma percentage_23_of_160:
  "toFixed2 (numberTimes (numberDivide 23 160) 100) = ''14.37''"
  "toFixed2 (23 / 160 * 100) = ''14.38''"
proof -
  have d: "numberDivide 23 160 = 2589569785738035 / 18014398509481984"
    unfolding numberDivide_def by (subst toDouble_eq [of "- 3"]) (simp_all add: toDouble_eval)
  have t: "numberTimes (2589569785738035 / 18014398509481984) 100
             = 8092405580431359 / 562949953421312"
    unfolding numberTimes_def by (subst toDouble_eq [of 3]) (simp_all add: toDouble_eval)
  show "toFixed2 (numberTimes (numberDivide 23 160) 100) = ''14.37''"
    unfolding d t by (simp add: toFixed2_eval)
  show "toFixed2 (23 / 160 * 100) = ''14.38''"
    by (simp add: toFixed2_eval)
qed

section \<open>Properties of the URL normalizer\<close>

lemma normalizeUrl_unparsed: "URL u = None \<Longrightarrow> normalizeUrl URL u = u"
  by (simp add: normalizeUrl_def)

lemma normalizeUrl_parsed:
  "URL u = Some c \<Longrightarrow>
   normalizeUrl URL u = protocol c @ ''//'' @ stripWww (hostname c) @ stripTrailingSlash (pathname c)"
  by (simp add: normalizeUrl_def)

text \<open>
  C10. The normalized form of a parseable URL is assembled from its protocol, its host
  name and its path only, so an explicit port is dropped: two URLs whose URL objects
  differ in the port alone have the same normalized form.
\<close>

theorem normalizeUrl_drops_port:
  assumes "URL u = Some c" and "URL u' = Some (c\<lparr>port := p\<rparr>)"
  shows "normalizeUrl URL u' = normalizeUrl URL u
         \<and> normalizeUrl URL u
             = protocol c @ ''//'' @ stripWww (hostname c) @ stripTrailingSlash (pathname c)"
  using assms by (simp add: normalizeUrl_def)

theorem normalizeUrl_drops_port_witness:
  "normalizeUrl parseUrl ''http://example.com/a'' = normalizeUrl parseUrl ''http://example.com:8080/a''
   \<and> normalizeUrl parseUrl ''http://example.com:8080/a'' = ''http://example.com/a''"
proof -
  let ?c = "\<lparr>protocol = ''http:'', hostname = ''example.com'', port = ''8080'',
             pathname = ''/a'', search = '''', hash = ''''\<rparr>"
  have with_port: "parseUrl ''http://example.com:8080/a'' = Some ?c"
    by (simp add: parseUrl_eval)
  have without_port: "parseUrl ''http://example.com/a'' = Some (?c\<lparr>port := ''''\<rparr>)"
    by (simp add: parseUrl_eval)
  from normalizeUrl_drops_port
         [of parseUrl "''http://example.com:8080/a''" ?c "''http://example.com/a''" "''''",
          OF with_port without_port]
  show ?thesis by (simp add: stripWww_def stripTrailingSlash_def endsWith_def)
qed

text \<open>
  C9 as stated fails: only one leading \<^verbatim>\<open>www.\<close> is removed per call, so a second call
  changes the result again.
\<close>

theorem normalizeUrl_idempotent_counterexample:
  "normalizeUrl parseUrl (normalizeUrl parseUrl ''http://www.www.a.com/'')
     \<noteq> normalizeUrl parseUrl ''http://www.www.a.com/''"
proof -
  have first: "normalizeUrl parseUrl ''http://www.www.a.com/'' = ''http://www.a.com/''"
    by (simp add: normalizeUrl_eval parseUrl_eval)
  have second: "normalizeUrl parseUrl ''http://www.a.com/'' = ''http://a.com/''"
    by (simp add: normalizeUrl_eval parseUrl_eval)
  show ?thesis by (simp add: first second)
qed

section \<open>Reparsing a normalized URL\<close>

lemma splitOn_nonempty: "splitOn d s \<noteq> []"
  by (induction s) (auto split: list.splits)

lemma splitOn_map:
  assumes "\<And>c. f c = d \<longleftrightarrow> c = d"
  shows "splitOn d (map f s) = map (map f) (splitOn d s)"
proof (induction s)
  case Nil
  show ?case by simp
next
  case (Cons c s)
  show ?case
    using splitOn_nonempty [of d s] by (cases "splitOn d s") (simp_all add: Cons.IH assms)
qed

lemma splitOn_chars:
  "list_all (\<lambda>l. list_all P l) (splitOn d s) \<Longrightarrow> c \<in> set s \<Longrightarrow> P c \<or> c = d"
proof (induction s)
  case Nil
  then show ?case by simp
next
  case (Cons x s)
  then show ?case
    using splitOn_nonempty [of d s]
    by (cases "splitOn d s") (auto split: if_splits)
qed

lemma lowerChar_dot: "lowerChar c = CHR ''.'' \<longleftrightarrow> c = CHR ''.''"
  by (auto simp: lowerChar_def split: if_splits)

lemma lowerChar_idem: "lowerChar (lowerChar c) = lowerChar c"
  by (auto simp: lowerChar_def split: if_splits)

lemma lowerChar_alnum: "isAlnum c \<Longrightarrow> isAlnum (lowerChar c)"
  by (auto simp: lowerChar_def isAlnum_def isDigit_def isLower_def isUpper_def charCode_def
      split: if_splits)

lemma lowerChar_letter: "isLower c \<or> isUpper c \<Longrightarrow> isLower (lowerChar c) \<or> isUpper (lowerChar c)"
  by (auto simp: lowerChar_def isLower_def isUpper_def charCode_def split: if_splits)

lemma validHost_lower: "validHost h \<Longrightarrow> validHost (toLowerCase h)"
proof -
  assume v: "validHost h"
  let ?ls = "splitOn CHR ''.'' h"
  have ne: "?ls \<noteq> []" by (rule splitOn_nonempty)
  have split: "splitOn CHR ''.'' (toLowerCase h) = map (map lowerChar) ?ls"
    unfolding toLowerCase_def by (rule splitOn_map) (rule lowerChar_dot)
  from v have labels: "list_all (\<lambda>l. l \<noteq> [] \<and> list_all isAlnum l) ?ls"
    and final: "case last ?ls of [] \<Rightarrow> False | c # _ \<Rightarrow> isLower c \<or> isUpper c"
    by (simp_all add: validHost_def Let_def)
  from labels have "list_all (\<lambda>l. l \<noteq> [] \<and> list_all isAlnum l) (map (map lowerChar) ?ls)"
    by (auto simp: list_all_iff lowerChar_alnum)
  moreover from final ne
  have "case last (map (map lowerChar) ?ls) of [] \<Rightarrow> False | c # _ \<Rightarrow> isLower c \<or> isUpper c"
    by (cases "last ?ls") (simp_all add: last_map lowerChar_letter)
  ultimately show ?thesis by (simp add: validHost_def Let_def split)
qed

lemma toLowerCase_idem: "toLowerCase (toLowerCase h) = toLowerCase h"
  by (simp add: toLowerCase_def lowerChar_idem)

lemma toLowerCase_drop: "toLowerCase (drop n h) = drop n (toLowerCase h)"
  by (simp add: toLowerCase_def drop_map)

lemma validHost_chars:
  assumes "validHost h" and "c \<in> set h"
  shows "isAlnum c \<or> c = CHR ''.''"
proof -
  from assms(1) have "list_all (\<lambda>l. list_all isAlnum l) (splitOn CHR ''.'' h)"
    by (auto simp: validHost_def Let_def list_all_iff)
  from splitOn_chars [OF this assms(2)] show ?thesis .
qed

lemma validHost_stripWww: "validHost h \<Longrightarrow> validHost (stripWww h)"
proof (cases "take 4 h = ''www.''")
  case False
  then show "validHost h \<Longrightarrow> validHost (stripWww h)" by (simp add: stripWww_def)
next
  case True
  assume v: "validHost h"
  let ?r = "drop 4 h"
  have h: "h = ''www.'' @ ?r" using True append_take_drop_id [of 4 h] by simp
  obtain l ls where ls: "splitOn CHR ''.'' ?r = l # ls"
    using splitOn_nonempty [of "CHR ''.''" ?r] by (cases "splitOn CHR ''.'' ?r") auto
  have "splitOn CHR ''.'' h = ''www'' # l # ls"
    by (subst h) (simp add: ls)
  with v have "validHost ?r"
    by (simp add: validHost_def Let_def ls)
  with True show "validHost (stripWww h)" by (simp add: stripWww_def)
qed

lemma alnum_not_delimiter:
  "isAlnum c \<or> c = CHR ''.'' \<Longrightarrow> \<not> authorityEnd c \<and> c \<noteq> CHR '':''"
  by (auto simp: isAlnum_def isDigit_def isLower_def isUpper_def charCode_def authorityEnd_def)

lemma pathChar_not_pathEnd: "pathChar c \<Longrightarrow> \<not> pathEnd c"
  by (auto simp: pathChar_def isAlnum_def isDigit_def isLower_def isUpper_def charCode_def
      pathEnd_def)

text \<open>A lower-case host followed by an absolute path parses into exactly these parts.\<close>

lemma parseUrl_assembled:
  assumes proto: "(proto, dflt, s) = (''http:'', 80::nat, ''http://'' @ h @ p)
                  \<or> (proto, dflt, s) = (''https:'', 443, ''https://'' @ h @ p)"
    and host: "validHost h" "toLowerCase h = h"
    and path: "p \<noteq> []" "hd p = CHR ''/''" "list_all pathChar p"
  shows "parseUrl s = Some \<lparr>protocol = proto, hostname = h, port = [], pathname = p,
                           search = [], hash = []\<rparr>"
proof -
  have scheme: "splitScheme s = Some (proto, dflt, h @ p)"
    using proto by (auto simp: splitScheme_def)
  have hchars: "\<not> authorityEnd c \<and> c \<noteq> CHR '':''" if "c \<in> set h" for c
    using validHost_chars [OF host(1) that] by (rule alnum_not_delimiter)
  obtain q where p: "p = CHR ''/'' # q" using path(1,2) by (cases p) auto
  have authority: "takeWhile (\<lambda>c. \<not> authorityEnd c) (h @ p) = h"
    using hchars by (simp add: takeWhile_append2 p authorityEnd_def)
  have after: "dropWhile (\<lambda>c. \<not> authorityEnd c) (h @ p) = p"
    using hchars by (simp add: dropWhile_append2 p authorityEnd_def)
  have hostpart: "takeWhile (\<lambda>c. c \<noteq> CHR '':'') h = h"
    using hchars by (simp add: takeWhile_eq_all_conv)
  have portpart: "dropWhile (\<lambda>c. c \<noteq> CHR '':'') h = []"
    using hchars by simp
  have pchars: "\<not> pathEnd c" if "c \<in> set p" for c
    using path(3) that pathChar_not_pathEnd by (auto simp: list_all_iff)
  have pathpart: "takeWhile (\<lambda>c. \<not> pathEnd c) p = p"
    using pchars by (simp add: takeWhile_eq_all_conv)
  have afterpath: "dropWhile (\<lambda>c. \<not> pathEnd c) p = []"
    using pchars by simp
  show ?thesis
    unfolding parseUrl_def scheme
    by (simp add: Let_def authority after hostpart portpart pathpart afterpath host path
          parsePort_def)
qed

lemma hd_takeWhile: "takeWhile P xs \<noteq> [] \<Longrightarrow> hd (takeWhile P xs) = hd xs \<and> P (hd xs)"
  by (cases xs) (auto split: if_splits)

lemma path_after_authority:
  assumes "path = takeWhile (\<lambda>c. \<not> pathEnd c) (dropWhile (\<lambda>c. \<not> authorityEnd c) rest)"
    and "path \<noteq> []"
  shows "hd path = CHR ''/''"
proof -
  let ?after = "dropWhile (\<lambda>c. \<not> authorityEnd c) rest"
  from assms have h: "hd path = hd ?after" "\<not> pathEnd (hd ?after)"
    using hd_takeWhile [of "\<lambda>c. \<not> pathEnd c" ?after] by auto
  have "?after \<noteq> []"
  proof
    assume "?after = []"
    with assms show False by simp
  qed
  then have "authorityEnd (hd ?after)" using hd_dropWhile [of "\<lambda>c. \<not> authorityEnd c" rest] by simp
  with h show ?thesis by (auto simp: authorityEnd_def pathEnd_def)
qed

lemma parseUrl_parts:
  assumes "parseUrl u = Some c"
  shows "(protocol c, 80::nat) = (''http:'', 80) \<or> (protocol c, 443::nat) = (''https:'', 443)"
    and "\<exists>h. validHost h \<and> hostname c = toLowerCase h"
    and "pathname c \<noteq> []" and "hd (pathname c) = CHR ''/''"
    and "list_all pathChar (pathname c)"
proof -
  from assms obtain proto dflt rest where scheme: "splitScheme u = Some (proto, dflt, rest)"
    by (cases "splitScheme u") (auto simp: parseUrl_def)
  define authority where "authority = takeWhile (\<lambda>c. \<not> authorityEnd c) rest"
  define host where "host = takeWhile (\<lambda>c. c \<noteq> CHR '':'') authority"
  define path where
    "path = takeWhile (\<lambda>c. \<not> pathEnd c) (dropWhile (\<lambda>c. \<not> authorityEnd c) rest)"
  from assms scheme
  have ok: "validHost host" "list_all pathChar path"
    and parts: "protocol c = proto" "hostname c = toLowerCase host"
      "pathname c = (if path = [] then ''/'' else path)"
    by (auto simp: parseUrl_def Let_def authority_def host_def path_def
        split: if_splits option.splits)
  from scheme parts(1)
  show "(protocol c, 80::nat) = (''http:'', 80) \<or> (protocol c, 443::nat) = (''https:'', 443)"
    by (auto simp: splitScheme_def split: if_splits)
  from ok(1) parts(2) show "\<exists>h. validHost h \<and> hostname c = toLowerCase h" by auto
  from parts(3) show "pathname c \<noteq> []" by simp
  from parts(3) path_after_authority [OF path_def] show "hd (pathname c) = CHR ''/''" by simp
  from parts(3) ok(2) show "list_all pathChar (pathname c)" by (simp add: pathChar_def)
qed

lemma stripTrailingSlash_path:
  assumes "p \<noteq> []" and "hd p = CHR ''/''" and "list_all pathChar p"
  shows "stripTrailingSlash p \<noteq> []" and "hd (stripTrailingSlash p) = CHR ''/''"
    and "list_all pathChar (stripTrailingSlash p)"
proof -
  show "stripTrailingSlash p \<noteq> []"
    using assms(1) by (cases p rule: rev_cases) (auto simp: stripTrailingSlash_def)
  show "hd (stripTrailingSlash p) = CHR ''/''"
    using assms(1,2)
    by (cases p rule: rev_cases) (auto simp: stripTrailingSlash_def hd_append)
  show "list_all pathChar (stripTrailingSlash p)"
    using assms(3) by (auto simp: stripTrailingSlash_def list_all_iff dest: in_set_butlastD)
qed

text \<open>
  On the plain http(s) URLs that \<open>parseUrl\<close> covers, the normalized form parses back
  into the protocol, host and path it was assembled from.
\<close>

lemma parseUrl_reparse:
  assumes "parseUrl u = Some c"
  shows "parseUrl (normalizeUrl parseUrl u)
           = Some \<lparr>protocol = protocol c, hostname = stripWww (hostname c), port = [],
                   pathname = stripTrailingSlash (pathname c), search = [], hash = []\<rparr>"
proof -
  from parseUrl_parts(2) [OF assms] obtain h where h: "validHost h" "hostname c = toLowerCase h"
    by auto
  have host: "validHost (stripWww (hostname c))"
    unfolding h(2) by (intro validHost_stripWww validHost_lower h(1))
  have lower: "toLowerCase (stripWww (hostname c)) = stripWww (hostname c)"
    by (simp add: h(2) stripWww_def toLowerCase_drop toLowerCase_idem)
  note path = stripTrailingSlash_path [OF parseUrl_parts(3,4,5) [OF assms]]
  have n: "normalizeUrl parseUrl u
             = protocol c @ ''//'' @ stripWww (hostname c) @ stripTrailingSlash (pathname c)"
    using assms by (rule normalizeUrl_parsed)
  from parseUrl_parts(1) [OF assms]
  have "\<exists>dflt. (protocol c, dflt, normalizeUrl parseUrl u)
                = (''http:'', 80::nat,
                   ''http://'' @ stripWww (hostname c) @ stripTrailingSlash (pathname c))
              \<or> (protocol c, dflt, normalizeUrl parseUrl u)
                = (''https:'', 443,
                   ''https://'' @ stripWww (hostname c) @ stripTrailingSlash (pathname c))"
    by (auto simp: n)
  then obtain dflt where
    "(protocol c, dflt, normalizeUrl parseUrl u)
       = (''http:'', 80::nat, ''http://'' @ stripWww (hostname c) @ stripTrailingSlash (pathname c))
     \<or> (protocol c, dflt, normalizeUrl parseUrl u)
       = (''https:'', 443, ''https://'' @ stripWww (hostname c) @ stripTrailingSlash (pathname c))"
    by blast
  from parseUrl_assembled [OF this host lower path] show ?thesis .
qed

text \<open>
  C9, amended. \<^verbatim>\<open>normalizeUrl(normalizeUrl(u)) = normalizeUrl(u)\<close> holds for every \<open>u\<close> that
  does not parse (it is returned unchanged), and for every \<open>u\<close> that parses when
  its host name carries at most one leading \<^verbatim>\<open>www.\<close>, its path carries at most one
  trailing slash to remove, and the URL parser reads the normalized string back as the
  protocol, host name and path it was assembled from (or rejects it).
\<close>

theorem normalizeUrl_idempotent_amended:
  assumes reparse: "\<And>c. URL u = Some c \<Longrightarrow>
      URL (normalizeUrl URL u) = None
      \<or> (\<exists>c'. URL (normalizeUrl URL u) = Some c' \<and> protocol c' = protocol c
              \<and> hostname c' = stripWww (hostname c)
              \<and> pathname c' = stripTrailingSlash (pathname c))"
    and oneWww: "\<And>c. URL u = Some c \<Longrightarrow> stripWww (stripWww (hostname c)) = stripWww (hostname c)"
    and oneSlash: "\<And>c. URL u = Some c \<Longrightarrow>
      stripTrailingSlash (stripTrailingSlash (pathname c)) = stripTrailingSlash (pathname c)"
  shows "normalizeUrl URL (normalizeUrl URL u) = normalizeUrl URL u"
proof (cases "URL u")
  case None
  then show ?thesis by (simp add: normalizeUrl_unparsed)
next
  case (Some c)
  from reparse [OF Some] show ?thesis
  proof
    assume "URL (normalizeUrl URL u) = None"
    then show ?thesis by (rule normalizeUrl_unparsed)
  next
    assume "\<exists>c'. URL (normalizeUrl URL u) = Some c' \<and> protocol c' = protocol c
              \<and> hostname c' = stripWww (hostname c)
              \<and> pathname c' = stripTrailingSlash (pathname c)"
    then obtain c' where c': "URL (normalizeUrl URL u) = Some c'" "protocol c' = protocol c"
        "hostname c' = stripWww (hostname c)" "pathname c' = stripTrailingSlash (pathname c)"
      by blast
    have "normalizeUrl URL (normalizeUrl URL u)
            = protocol c' @ ''//'' @ stripWww (hostname c') @ stripTrailingSlash (pathname c')"
      using c'(1) by (rule normalizeUrl_parsed [where URL = URL and u = "normalizeUrl URL u"])
    also have "\<dots> = protocol c @ ''//'' @ stripWww (hostname c)
                          @ stripTrailingSlash (pathname c)"
      by (simp only: c'(2,3,4) oneWww [OF Some] oneSlash [OF Some])
    also have "\<dots> = normalizeUrl URL u"
      using Some by (rule normalizeUrl_parsed [where URL = URL and u = u, symmetric])
    finally show ?thesis .
  qed
qed

theorem normalizeUrl_idempotent_amended_witness:
  "normalizeUrl parseUrl (normalizeUrl parseUrl ''http://www.Example.com/a/'')
     = normalizeUrl parseUrl ''http://www.Example.com/a/''
   \<and> normalizeUrl parseUrl ''http://www.Example.com/a/'' = ''http://example.com/a''
   \<and> normalizeUrl parseUrl (normalizeUrl parseUrl ''not a url'') = normalizeUrl parseUrl ''not a url''"
proof -
  let ?u = "''http://www.Example.com/a/''"
  let ?c = "\<lparr>protocol = ''http:'', hostname = ''www.example.com'', port = [],
             pathname = ''/a/'', search = [], hash = []\<rparr>"
  have p: "parseUrl ?u = Some ?c"
    by (simp add: parseUrl_eval)
  have n: "normalizeUrl parseUrl ?u = ''http://example.com/a''"
    by (simp add: normalizeUrl_def p stripWww_def stripTrailingSlash_def endsWith_def)
  have first: "normalizeUrl parseUrl (normalizeUrl parseUrl ?u) = normalizeUrl parseUrl ?u"
  proof (rule normalizeUrl_idempotent_amended)
    fix c assume c: "parseUrl ?u = Some c"
    from parseUrl_reparse [OF c]
    show "parseUrl (normalizeUrl parseUrl ?u) = None
          \<or> (\<exists>c'. parseUrl (normalizeUrl parseUrl ?u) = Some c' \<and> protocol c' = protocol c
                  \<and> hostname c' = stripWww (hostname c)
                  \<and> pathname c' = stripTrailingSlash (pathname c))"
      by simp
    from c p have "c = ?c" by simp
    then show "stripWww (stripWww (hostname c)) = stripWww (hostname c)"
      and "stripTrailingSlash (stripTrailingSlash (pathname c)) = stripTrailingSlash (pathname c)"
      by (simp_all add: stripWww_def stripTrailingSlash_def endsWith_def)
  qed
  have q: "parseUrl ''not a url'' = None"
    by (simp add: parseUrl_eval)
  have second: "normalizeUrl parseUrl (normalizeUrl parseUrl ''not a url'')
                  = normalizeUrl parseUrl ''not a url''"
    by (rule normalizeUrl_idempotent_amended) (simp_all add: q)
  from first n second show ?thesis by simp
qed

text \<open>The same for the plain http(s) URLs that \<open>parseUrl\<close> covers, without the third condition.\<close>

lemma normalizeUrl_idempotent_plain:
  assumes "parseUrl u = Some c"
    and "stripWww (stripWww (hostname c)) = stripWww (hostname c)"
    and "stripTrailingSlash (stripTrailingSlash (pathname c)) = stripTrailingSlash (pathname c)"
  shows "normalizeUrl parseUrl (normalizeUrl parseUrl u) = normalizeUrl parseUrl u"
proof -
  let ?n = "normalizeUrl parseUrl u"
  have n: "?n = protocol c @ ''//'' @ stripWww (hostname c) @ stripTrailingSlash (pathname c)"
    using assms(1) by (rule normalizeUrl_parsed [where URL = parseUrl and u = u])
  have "normalizeUrl parseUrl ?n
          = protocol c @ ''//'' @ stripWww (stripWww (hostname c))
              @ stripTrailingSlash (stripTrailingSlash (pathname c))"
    using normalizeUrl_parsed [where URL = parseUrl and u = ?n, OF parseUrl_reparse [OF assms(1)]]
    by simp
  also have "\<dots> = ?n"
    by (simp only: assms(2,3) n)
  finally show ?thesis .
qed

lemma isDigit_not_delimiter: "isDigit c \<Longrightarrow> \<not> authorityEnd c \<and> c \<noteq> CHR '':''"
  by (auto simp: isDigit_def charCode_def authorityEnd_def)

text \<open>A lower-case host, an explicit port and an absolute path parse into these parts.\<close>

lemma parseUrl_assembled_port:
  assumes proto: "(proto, dflt, s) = (''http:'', 80::nat, ''http://'' @ h @ '':'' @ ds @ p)
                  \<or> (proto, dflt, s) = (''https:'', 443, ''https://'' @ h @ '':'' @ ds @ p)"
    and host: "validHost h" "toLowerCase h = h"
    and digits: "list_all isDigit ds" "digitsValue ds 0 \<le> 65535"
    and path: "p \<noteq> []" "hd p = CHR ''/''" "list_all pathChar p"
  shows "\<exists>prt. parseUrl s = Some \<lparr>protocol = proto, hostname = h, port = prt, pathname = p,
                                   search = [], hash = []\<rparr>"
proof -
  have scheme: "splitScheme s = Some (proto, dflt, h @ '':'' @ ds @ p)"
    using proto by (auto simp: splitScheme_def)
  have hchars: "\<not> authorityEnd c \<and> c \<noteq> CHR '':''" if "c \<in> set h" for c
    using validHost_chars [OF host(1) that] by (rule alnum_not_delimiter)
  have dchars: "\<not> authorityEnd c" if "c \<in> set ds" for c
    using digits(1) that isDigit_not_delimiter by (auto simp: list_all_iff)
  obtain q where p: "p = CHR ''/'' # q" using path(1,2) by (cases p) auto
  have achars: "\<not> authorityEnd c" if "c \<in> set (h @ '':'' @ ds)" for c
    using that hchars dchars by (auto simp: authorityEnd_def)
  have authority: "takeWhile (\<lambda>c. \<not> authorityEnd c) (h @ '':'' @ ds @ p) = h @ '':'' @ ds"
    using takeWhile_append2 [of "h @ '':'' @ ds" "\<lambda>c. \<not> authorityEnd c" p] achars
    by (simp add: p authorityEnd_def)
  have after: "dropWhile (\<lambda>c. \<not> authorityEnd c) (h @ '':'' @ ds @ p) = p"
    using dropWhile_append2 [of "h @ '':'' @ ds" "\<lambda>c. \<not> authorityEnd c" p] achars
    by (simp add: p authorityEnd_def)
  have hostpart: "takeWhile (\<lambda>c. c \<noteq> CHR '':'') (h @ '':'' @ ds) = h"
    using hchars by (simp add: takeWhile_append2)
  have portpart: "dropWhile (\<lambda>c. c \<noteq> CHR '':'') (h @ '':'' @ ds) = '':'' @ ds"
    using hchars by (simp add: dropWhile_append2)
  have pchars: "\<not> pathEnd c" if "c \<in> set p" for c
    using path(3) that pathChar_not_pathEnd by (auto simp: list_all_iff)
  have pathpart: "takeWhile (\<lambda>c. \<not> pathEnd c) p = p"
    using pchars by (simp add: takeWhile_eq_all_conv)
  have afterpath: "dropWhile (\<lambda>c. \<not> pathEnd c) p = []"
    using pchars by simp
  have "\<exists>prt. parsePort dflt ('':'' @ ds) = Some prt"
    using digits by (simp add: parsePort_def)
  then obtain prt where prt: "parsePort dflt ('':'' @ ds) = Some prt" by blast
  show ?thesis
    unfolding parseUrl_def scheme
    by (simp add: Let_def authority after hostpart portpart pathpart afterpath host path prt
          del: append.simps)
qed

text \<open>
  On the plain http(s) URLs that \<open>parseUrl\<close> covers, writing a port after the host does
  not change the normalized form.
\<close>

lemma normalizeUrl_port_plain:
  assumes "validHost h" and "toLowerCase h = h"
    and "list_all isDigit ds" and "digitsValue ds 0 \<le> 65535"
    and "p \<noteq> []" and "hd p = CHR ''/''" and "list_all pathChar p"
  shows "normalizeUrl parseUrl (''http://'' @ h @ '':'' @ ds @ p)
           = normalizeUrl parseUrl (''http://'' @ h @ p)"
    and "normalizeUrl parseUrl (''http://'' @ h @ p)
           = ''http:'' @ ''//'' @ stripWww h @ stripTrailingSlash p"
proof -
  define u1 where "u1 = ''http://'' @ h @ '':'' @ ds @ p"
  define u0 where "u0 = ''http://'' @ h @ p"
  from parseUrl_assembled_port [of "''http:''" 80 u1 h ds p] assms
  obtain prt where with_port: "parseUrl u1
      = Some \<lparr>protocol = ''http:'', hostname = h, port = prt, pathname = p,
               search = [], hash = []\<rparr>"
    by (auto simp: u1_def)
  from parseUrl_assembled [of "''http:''" 80 u0 h p] assms
  have without_port: "parseUrl u0
      = Some \<lparr>protocol = ''http:'', hostname = h, port = [], pathname = p,
               search = [], hash = []\<rparr>"
    by (auto simp: u0_def)
  have n0: "normalizeUrl parseUrl u0 = ''http:'' @ ''//'' @ stripWww h @ stripTrailingSlash p"
    using normalizeUrl_parsed [where URL = parseUrl and u = u0, OF without_port] by simp
  have n1: "normalizeUrl parseUrl u1 = ''http:'' @ ''//'' @ stripWww h @ stripTrailingSlash p"
    using normalizeUrl_parsed [where URL = parseUrl and u = u1, OF with_port] by simp
  from n0 show "normalizeUrl parseUrl (''http://'' @ h @ p)
                  = ''http:'' @ ''//'' @ stripWww h @ stripTrailingSlash p"
    unfolding u0_def .
  from n0 n1 have "normalizeUrl parseUrl u1 = normalizeUrl parseUrl u0" by (simp only:)
  then show "normalizeUrl parseUrl (''http://'' @ h @ '':'' @ ds @ p)
               = normalizeUrl parseUrl (''http://'' @ h @ p)"
    unfolding u1_def u0_def .
qed

section \<open>Termination of the sitemap parser\<close>

text \<open>
  The loop over the entries of an index ends exactly when the call for every entry that
  comes before the first one without \<^verbatim>\<open>loc\<close> returns.
\<close>

lemma nestedSitemaps_returns:
  "(\<exists>r. nestedSitemaps parse sitemaps urls = Some r)
     \<longleftrightarrow> (\<forall>v. Some v \<in> set (takeWhile (\<lambda>s. s \<noteq> None) sitemaps) \<longrightarrow> (\<exists>r. parse v = Some r))"
proof (induction sitemaps arbitrary: urls)
  case Nil
  show ?case by simp
next
  case (Cons s sitemaps)
  show ?case
  proof (cases s)
    case None
    then show ?thesis by simp
  next
    case (Some v)
    show ?thesis
    proof (cases "parse v")
      case None
      with Some show ?thesis by auto
    next
      case (Some r)
      with \<open>s = Some v\<close> Cons.IH show ?thesis by (cases r) auto
    qed
  qed
qed

lemma reachableCalls_self: "(filePath, isFile) \<in> reachableCalls w filePath isFile"
  by (simp add: reachableCalls_def)

lemma reachableCalls_nested:
  assumes "((v, False), c) \<in> indexRefs w" "c \<in> reachableCalls w filePath isFile"
  shows "(v, False) \<in> reachableCalls w filePath isFile"
  using assms by (auto simp: reachableCalls_def intro: converse_rtrancl_into_rtrancl)

text \<open>The calls made by a call that loads a sitemap index.\<close>

lemma indexRefs_index:
  assumes "loadXml w filePath isFile = Some (Inr (SitemapIndex sitemaps))"
  shows "(c', (filePath, isFile)) \<in> indexRefs w
           \<longleftrightarrow> (\<exists>v. c' = (v, False) \<and> Some v \<in> set (takeWhile (\<lambda>s. s \<noteq> None) sitemaps))"
  using assms by (auto simp: indexRefs_def)

text \<open>
  Every call reached from the first one returns, when the nesting of the reached calls
  is well-founded and every document they load arrives.
\<close>

lemma parseSitemap_call_returns:
  assumes wf: "wf (nestedCalls w filePath isFile)"
    and settles: "\<forall>c \<in> reachableCalls w filePath isFile. loadXml w (fst c) (snd c) \<noteq> None"
    and reached: "c \<in> reachableCalls w filePath isFile"
  shows "\<exists>r. parseSitemap w (fst c) (snd c) = Some r"
  using wf reached
proof (induction c rule: wf_induct_rule)
  case (less c)
  from settles less.prems obtain doc where doc: "loadXml w (fst c) (snd c) = Some doc"
    by blast
  show ?case
  proof (cases doc)
    case (Inl msg)
    then show ?thesis by (subst parseSitemap.simps) (simp add: doc)
  next
    case (Inr xml)
    show ?thesis
    proof (cases xml)
      case (SitemapIndex sitemaps)
      have "\<exists>r. parseSitemap w v False = Some r"
        if v: "Some v \<in> set (takeWhile (\<lambda>s. s \<noteq> None) sitemaps)" for v
      proof -
        from v doc Inr SitemapIndex have ref: "((v, False), c) \<in> indexRefs w"
          by (cases c) (auto simp: indexRefs_def)
        with less.prems have "((v, False), c) \<in> nestedCalls w filePath isFile"
          by (simp add: nestedCalls_def)
        moreover from ref less.prems have "(v, False) \<in> reachableCalls w filePath isFile"
          by (rule reachableCalls_nested)
        ultimately show ?thesis using less.IH [of "(v, False)"] by simp
      qed
      then obtain r where "nestedSitemaps (\<lambda>v. parseSitemap w v False) sitemaps [] = Some r"
        using nestedSitemaps_returns [of "\<lambda>v. parseSitemap w v False" sitemaps "[]"] by blast
      then show ?thesis
        by (subst parseSitemap.simps) (simp add: doc Inr SitemapIndex)
    next
      case (UrlSet els)
      then show ?thesis by (subst parseSitemap.simps) (simp add: doc Inr)
    next
      case OtherRoot
      then show ?thesis by (subst parseSitemap.simps) (simp add: doc Inr)
    qed
  qed
qed

lemma reachableCalls_cases:
  assumes "c \<in> reachableCalls w filePath isFile"
  shows "c = (filePath, isFile)
         \<or> (\<exists>c'. (c', (filePath, isFile)) \<in> indexRefs w \<and> c \<in> reachableCalls w (fst c') (snd c'))"
proof -
  from assms have "(c, (filePath, isFile)) \<in> (indexRefs w)\<^sup>*"
    by (simp add: reachableCalls_def)
  then show ?thesis
    by (cases rule: rtranclE) (auto simp: reachableCalls_def)
qed

text \<open>
  Conversely, a call that returns has made no request that never settles, and no chain
  of nested calls starts from it and goes on for ever: it lies in the accessible part of
  the nesting.
\<close>

lemma parseSitemap_returned:
  assumes "parseSitemap w filePath isFile = Some y"
  shows "(filePath, isFile) \<in> Wellfounded.acc (indexRefs w)
         \<and> (\<forall>c \<in> reachableCalls w filePath isFile. loadXml w (fst c) (snd c) \<noteq> None)"
proof (rule parseSitemap.raw_induct
         [where P = "\<lambda>w filePath isFile y.
                       (filePath, isFile) \<in> Wellfounded.acc (indexRefs w)
                       \<and> (\<forall>c \<in> reachableCalls w filePath isFile.
                             loadXml w (fst c) (snd c) \<noteq> None)",
          OF _ assms], goal_cases)
  case (1 parse w filePath isFile y)
  from "1"(2) obtain doc where doc: "loadXml w filePath isFile = Some doc"
    by (cases "loadXml w filePath isFile") simp_all
  have nested: "(v, False) \<in> Wellfounded.acc (indexRefs w)
                \<and> (\<forall>c \<in> reachableCalls w v False. loadXml w (fst c) (snd c) \<noteq> None)"
    if "((v, False), (filePath, isFile)) \<in> indexRefs w" for v
  proof -
    from that obtain sitemaps where index: "loadXml w filePath isFile = Some (Inr (SitemapIndex sitemaps))"
        and v: "Some v \<in> set (takeWhile (\<lambda>s. s \<noteq> None) sitemaps)"
      by (auto simp: indexRefs_def)
    from "1"(2) index
    have "\<exists>r. nestedSitemaps (\<lambda>sitemapUrl. parse w sitemapUrl False) sitemaps [] = Some r"
      by (auto simp: bind_eq_Some_conv)
    with v obtain r where "parse w v False = Some r"
      using nestedSitemaps_returns [of "\<lambda>sitemapUrl. parse w sitemapUrl False" sitemaps "[]"]
      by blast
    then show ?thesis by (rule "1"(1))
  qed
  have calls: "\<exists>v. c' = (v, False)" if "(c', (filePath, isFile)) \<in> indexRefs w" for c'
    using that by (auto simp: indexRefs_def)
  have "(filePath, isFile) \<in> Wellfounded.acc (indexRefs w)"
  proof (rule accI)
    fix c'
    assume c': "(c', (filePath, isFile)) \<in> indexRefs w"
    with calls obtain v where "c' = (v, False)" by blast
    with c' nested show "c' \<in> Wellfounded.acc (indexRefs w)" by blast
  qed
  moreover have "loadXml w (fst c) (snd c) \<noteq> None" if c: "c \<in> reachableCalls w filePath isFile" for c
  proof -
    from reachableCalls_cases [OF c] show ?thesis
    proof
      assume "c = (filePath, isFile)"
      with doc show ?thesis by simp
    next
      assume "\<exists>c'. (c', (filePath, isFile)) \<in> indexRefs w \<and> c \<in> reachableCalls w (fst c') (snd c')"
      then obtain c' where c': "(c', (filePath, isFile)) \<in> indexRefs w"
          and reached: "c \<in> reachableCalls w (fst c') (snd c')"
        by blast
      from calls [OF c'] obtain v where v: "c' = (v, False)" by blast
      from nested [of v] c' reached show ?thesis unfolding v by simp
    qed
  qed
  ultimately show ?case by blast
qed

lemma nestedCalls_wf:
  assumes "(filePath, isFile) \<in> Wellfounded.acc (indexRefs w)"
  shows "wf (nestedCalls w filePath isFile)"
proof (rule acc_wfI, rule allI)
  fix c
  show "c \<in> Wellfounded.acc (nestedCalls w filePath isFile)"
  proof (cases "c \<in> reachableCalls w filePath isFile")
    case True
    then have "c \<in> Wellfounded.acc (indexRefs w)"
      using acc_downwards [OF assms] by (simp add: reachableCalls_def)
    moreover have "nestedCalls w filePath isFile \<subseteq> indexRefs w"
      by (auto simp: nestedCalls_def)
    ultimately show ?thesis
      using acc_subset by blast
  next
    case False
    show ?thesis
      by (rule accI) (use False in \<open>simp add: nestedCalls_def\<close>)
  qed
qed

text \<open>
  The loop over the entries of an index does not end when the call for one entry does
  not return and no entry before it lacks its \<^verbatim>\<open>loc\<close>. So the call for a URL that
  serves a sitemap index listing that same URL does not return, when every entry before
  that one has its \<^verbatim>\<open>loc\<close>.
\<close>

lemma nestedSitemaps_stuck:
  assumes "parse u = None" "Some u \<in> set sitemaps"
    and "None \<notin> set (takeWhile (\<lambda>s. s \<noteq> Some u) sitemaps)"
  shows "nestedSitemaps parse sitemaps urls = None"
  using assms(2,3)
proof (induction sitemaps arbitrary: urls)
  case Nil
  then show ?case by simp
next
  case (Cons s sitemaps)
  show ?case
  proof (cases s)
    case None
    with Cons.prems show ?thesis by simp
  next
    case (Some v)
    show ?thesis
    proof (cases "v = u")
      case True
      with Some assms(1) show ?thesis by simp
    next
      case False
      with Some Cons.prems have "Some u \<in> set sitemaps"
          "None \<notin> set (takeWhile (\<lambda>s. s \<noteq> Some u) sitemaps)"
        by simp_all
      then have rest: "nestedSitemaps parse sitemaps urls' = None" for urls'
        by (rule Cons.IH)
      show ?thesis
      proof (cases "parse v")
        case None
        with Some show ?thesis by simp
      next
        case (Some r)
        with \<open>s = Some v\<close> rest show ?thesis by (cases r) simp_all
      qed
    qed
  qed
qed

lemma parseSitemap_self_listing:
  assumes index: "httpGet w u = Some (Inr (SitemapIndex sitemaps))"
    and self: "Some u \<in> set sitemaps"
    and before: "None \<notin> set (takeWhile (\<lambda>s. s \<noteq> Some u) sitemaps)"
  shows "parseSitemap w u False = None"
proof (cases "parseSitemap w u False")
  case None
  then show ?thesis .
next
  case (Some y)
  have "\<not> (w = w \<and> u = u \<and> False = False)"
  proof (rule parseSitemap.raw_induct
           [where P = "\<lambda>w' filePath isFile y. \<not> (w' = w \<and> filePath = u \<and> isFile = False)",
            OF _ Some], goal_cases)
    case (1 parse w' filePath isFile y)
    show ?case
    proof
      assume a: "w' = w \<and> filePath = u \<and> isFile = False"
      have "parse w u False = None"
      proof (cases "parse w u False")
        case None
        then show ?thesis .
      next
        case (Some r)
        from "1"(1) [OF this] show ?thesis by simp
      qed
      then have "nestedSitemaps (\<lambda>sitemapUrl. parse w sitemapUrl False) sitemaps [] = None"
        using self before by (rule nestedSitemaps_stuck)
      with "1"(2) a index show False
        by (simp add: loadXml_def)
    qed
  qed
  then show ?thesis by simp
qed

text \<open>
  C3 as stated fails: \<^verbatim>\<open>parseSitemap\<close> keeps no set of visited URLs and no depth
  counter. On this sitemap index, which lists its own URL, the recursion never returns.
\<close>

theorem parseSitemap_termination_counterexample:
  "parseSitemap selfIndex ''http://a.example/sitemap.xml'' False = None"
proof (cases "parseSitemap selfIndex ''http://a.example/sitemap.xml'' False")
  case None
  then show ?thesis .
next
  case (Some y)
  have "\<not> (selfIndex = selfIndex \<and> ''http://a.example/sitemap.xml'' = ''http://a.example/sitemap.xml''
           \<and> False = False)"
  proof (rule parseSitemap.raw_induct
           [where P = "\<lambda>w filePath isFile y.
                         \<not> (w = selfIndex \<and> filePath = ''http://a.example/sitemap.xml''
                            \<and> isFile = False)",
            OF _ Some], goal_cases)
    case (1 parse w filePath isFile y)
    show ?case
    proof
      assume a: "w = selfIndex \<and> filePath = ''http://a.example/sitemap.xml'' \<and> isFile = False"
      then have "loadXml w filePath isFile
                   = Some (Inr (SitemapIndex [Some ''http://a.example/sitemap.xml'']))"
        by (simp add: loadXml_def selfIndex_def)
      with "1"(2) obtain r where "parse w ''http://a.example/sitemap.xml'' False = Some r"
        by (auto simp: bind_eq_Some_conv)
      from "1"(1) [OF this] a show False by simp
    qed
  qed
  then show ?thesis by simp
qed

text \<open>
  C3, amended. \<^verbatim>\<open>parseSitemap\<close> has no loop protection. A call that loads a sitemap
  index makes a nested call for each entry, up to the first entry without \<^verbatim>\<open>loc\<close>. A
  call returns, with the entries or with an error, exactly when every request made by the
  calls that it leads to settles and the nesting of these calls is well-founded: no
  sitemap index is reached again from itself, and no chain of indices goes on for ever.
\<close>

theorem parseSitemap_returns_amended:
  "(\<exists>r. parseSitemap w filePath isFile = Some r)
     \<longleftrightarrow> wf (nestedCalls w filePath isFile)
         \<and> (\<forall>c \<in> reachableCalls w filePath isFile. loadXml w (fst c) (snd c) \<noteq> None)"
proof
  assume "\<exists>r. parseSitemap w filePath isFile = Some r"
  then obtain r where "parseSitemap w filePath isFile = Some r" ..
  from parseSitemap_returned [OF this] nestedCalls_wf [of filePath isFile w]
  show "wf (nestedCalls w filePath isFile)
         \<and> (\<forall>c \<in> reachableCalls w filePath isFile. loadXml w (fst c) (snd c) \<noteq> None)"
    by blast
next
  assume a: "wf (nestedCalls w filePath isFile)
         \<and> (\<forall>c \<in> reachableCalls w filePath isFile. loadXml w (fst c) (snd c) \<noteq> None)"
  with reachableCalls_self [of filePath isFile w]
  have "\<exists>r. parseSitemap w (fst (filePath, isFile)) (snd (filePath, isFile)) = Some r"
    by (intro parseSitemap_call_returns [of w filePath isFile]) simp_all
  then show "\<exists>r. parseSitemap w filePath isFile = Some r" by simp
qed

lemma smallSite_documents:
  "readFile smallSite ''uploads/sitemap.xml''
     = Inr (SitemapIndex [Some ''http://a.example/index2.xml'', Some ''http://a.example/gone.xml''])"
  "httpGet smallSite ''http://a.example/index2.xml''
     = Some (Inr (SitemapIndex [Some ''http://a.example/pages.xml'']))"
  "httpGet smallSite ''http://a.example/pages.xml''
     = Some (Inr (UrlSet [\<lparr>loc = Some ''http://a.example/'', lastmodText = None,
                            changefreqText = None, priorityText = Some ''0.8''\<rparr>]))"
  "httpGet smallSite ''http://a.example/gone.xml''
     = Some (Inl ''Request failed with status code 404'')"
  "httpGet smallSite ''http://a.example/loop.xml''
     = Some (Inr (SitemapIndex [Some ''http://a.example/pages.xml'',
                                Some ''http://a.example/loop.xml'']))"
  by (simp_all add: smallSite_def)

text \<open>The sitemap indexes of \<open>smallSite\<close>, and the calls that the call for its file leads to.\<close>

lemma smallSite_indexes:
  assumes "loadXml smallSite filePath isFile = Some (Inr (SitemapIndex sitemaps))"
  shows "isFile \<and> filePath = ''uploads/sitemap.xml''
           \<and> sitemaps = [Some ''http://a.example/index2.xml'', Some ''http://a.example/gone.xml'']
         \<or> \<not> isFile \<and> filePath = ''http://a.example/index2.xml''
           \<and> sitemaps = [Some ''http://a.example/pages.xml'']
         \<or> \<not> isFile \<and> filePath = ''http://a.example/loop.xml''
           \<and> sitemaps = [Some ''http://a.example/pages.xml'', Some ''http://a.example/loop.xml'']"
proof (cases isFile)
  case True
  with assms show ?thesis
    by (simp add: loadXml_def smallSite_def split: if_splits)
next
  case False
  with assms show ?thesis
    by (simp add: loadXml_def smallSite_def split: if_splits)
qed

lemma smallSite_nested:
  assumes "(c', c) \<in> indexRefs smallSite"
  shows "c = (''uploads/sitemap.xml'', True)
           \<and> (c' = (''http://a.example/index2.xml'', False) \<or> c' = (''http://a.example/gone.xml'', False))
         \<or> c = (''http://a.example/index2.xml'', False) \<and> c' = (''http://a.example/pages.xml'', False)
         \<or> c = (''http://a.example/loop.xml'', False)
           \<and> (c' = (''http://a.example/pages.xml'', False) \<or> c' = (''http://a.example/loop.xml'', False))"
proof -
  obtain filePath isFile where c: "c = (filePath, isFile)" by (cases c)
  from assms obtain v sitemaps where c': "c' = (v, False)"
      and doc: "loadXml smallSite filePath isFile = Some (Inr (SitemapIndex sitemaps))"
      and v: "Some v \<in> set (takeWhile (\<lambda>s. s \<noteq> None) sitemaps)"
    unfolding c by (auto simp: indexRefs_def)
  from smallSite_indexes [OF doc] show ?thesis
  proof (elim disjE conjE)
    assume "isFile" "filePath = ''uploads/sitemap.xml''"
      "sitemaps = [Some ''http://a.example/index2.xml'', Some ''http://a.example/gone.xml'']"
    with v show ?thesis unfolding c c' by simp
  next
    assume "\<not> isFile" "filePath = ''http://a.example/index2.xml''"
      "sitemaps = [Some ''http://a.example/pages.xml'']"
    with v show ?thesis unfolding c c' by simp
  next
    assume "\<not> isFile" "filePath = ''http://a.example/loop.xml''"
      "sitemaps = [Some ''http://a.example/pages.xml'', Some ''http://a.example/loop.xml'']"
    with v show ?thesis unfolding c c' by simp
  qed
qed

lemma smallSite_reachableCalls:
  "reachableCalls smallSite ''uploads/sitemap.xml'' True
     \<subseteq> {(''uploads/sitemap.xml'', True), (''http://a.example/index2.xml'', False),
         (''http://a.example/gone.xml'', False), (''http://a.example/pages.xml'', False)}"
proof
  fix c
  assume "c \<in> reachableCalls smallSite ''uploads/sitemap.xml'' True"
  then have "(c, (''uploads/sitemap.xml'', True)) \<in> (indexRefs smallSite)\<^sup>*"
    by (simp add: reachableCalls_def)
  then show "c \<in> {(''uploads/sitemap.xml'', True), (''http://a.example/index2.xml'', False),
         (''http://a.example/gone.xml'', False), (''http://a.example/pages.xml'', False)}"
  proof (induction rule: converse_rtrancl_induct)
    case base
    show ?case by simp
  next
    case (step c' c)
    from smallSite_nested [OF step.hyps(1)] step.IH show ?case
      by (elim disjE conjE) simp_all
  qed
qed

theorem parseSitemap_returns_amended_witness:
  "(\<exists>r. parseSitemap smallSite ''uploads/sitemap.xml'' True = Some r)
   \<and> parseSitemap smallSite ''http://a.example/loop.xml'' False = None
   \<and> parseSitemap smallSite ''http://a.example/slow.xml'' False = None"
proof -
  let ?depth = "\<lambda>c :: string \<times> bool.
                  if snd c then 2 else if fst c = ''http://a.example/index2.xml'' then 1 else (0::nat)"
  have "nestedCalls smallSite ''uploads/sitemap.xml'' True \<subseteq> measure ?depth"
  proof
    fix p
    assume p: "p \<in> nestedCalls smallSite ''uploads/sitemap.xml'' True"
    obtain c' c where pc: "p = (c', c)" by (cases p)
    from p have refs: "(c', c) \<in> indexRefs smallSite"
      and c: "c \<in> reachableCalls smallSite ''uploads/sitemap.xml'' True"
      by (simp_all add: nestedCalls_def pc)
    from c smallSite_reachableCalls have "c \<noteq> (''http://a.example/loop.xml'', False)"
      by auto
    with smallSite_nested [OF refs] show "p \<in> measure ?depth"
      unfolding pc by (elim disjE conjE) simp_all
  qed
  then have wf: "wf (nestedCalls smallSite ''uploads/sitemap.xml'' True)"
    by (rule wf_subset [OF wf_measure])
  have settles: "\<forall>c \<in> reachableCalls smallSite ''uploads/sitemap.xml'' True.
                   loadXml smallSite (fst c) (snd c) \<noteq> None"
  proof
    fix c
    assume "c \<in> reachableCalls smallSite ''uploads/sitemap.xml'' True"
    with smallSite_reachableCalls
    have "c \<in> {(''uploads/sitemap.xml'', True), (''http://a.example/index2.xml'', False),
         (''http://a.example/gone.xml'', False), (''http://a.example/pages.xml'', False)}"
      by (rule subsetD)
    then show "loadXml smallSite (fst c) (snd c) \<noteq> None"
      by (elim insertE emptyE) (simp_all add: loadXml_def smallSite_documents)
  qed
  from parseSitemap_returns_amended [of smallSite "''uploads/sitemap.xml''" True] wf settles
  have returns: "\<exists>r. parseSitemap smallSite ''uploads/sitemap.xml'' True = Some r"
    by blast
  have "loadXml smallSite ''http://a.example/loop.xml'' False
          = Some (Inr (SitemapIndex [Some ''http://a.example/pages.xml'',
                                     Some ''http://a.example/loop.xml'']))"
    by (simp add: loadXml_def smallSite_documents)
  from indexRefs_index [OF this, of "(''http://a.example/loop.xml'', False)"]
  have "((''http://a.example/loop.xml'', False), (''http://a.example/loop.xml'', False))
          \<in> indexRefs smallSite"
    by simp
  then have again: "((''http://a.example/loop.xml'', False), (''http://a.example/loop.xml'', False))
          \<in> nestedCalls smallSite ''http://a.example/loop.xml'' False"
    by (simp add: nestedCalls_def reachableCalls_self)
  have "\<not> wf (nestedCalls smallSite ''http://a.example/loop.xml'' False)"
  proof
    assume "wf (nestedCalls smallSite ''http://a.example/loop.xml'' False)"
    from wf_not_refl [OF this] again show False by (rule notE)
  qed
  with parseSitemap_returns_amended [of smallSite "''http://a.example/loop.xml''" False]
  have loop: "parseSitemap smallSite ''http://a.example/loop.xml'' False = None"
    by (cases "parseSitemap smallSite ''http://a.example/loop.xml'' False") auto
  have pending: "loadXml smallSite ''http://a.example/slow.xml'' False = None"
    by (simp add: loadXml_def smallSite_def)
  have "\<not> (\<forall>c \<in> reachableCalls smallSite ''http://a.example/slow.xml'' False.
             loadXml smallSite (fst c) (snd c) \<noteq> None)"
  proof
    assume "\<forall>c \<in> reachableCalls smallSite ''http://a.example/slow.xml'' False.
              loadXml smallSite (fst c) (snd c) \<noteq> None"
    from bspec [OF this reachableCalls_self] pending show False by simp
  qed
  with parseSitemap_returns_amended [of smallSite "''http://a.example/slow.xml''" False]
  have slow: "parseSitemap smallSite ''http://a.example/slow.xml'' False = None"
    by (cases "parseSitemap smallSite ''http://a.example/slow.xml'' False") auto
  from returns loop slow show ?thesis by (intro conjI)
qed

text \<open>The value returned there: the sitemap that cannot be fetched is skipped.\<close>

lemma parseSitemap_smallSite:
  "parseSitemap smallSite ''uploads/sitemap.xml'' True
     = Some (Inr [\<lparr>sitemapEntry.url = ''http://a.example/'', lastmod = None, changefreq = None,
                    priority = Some ''0.8''\<rparr>])"
proof -
  have pages: "parseSitemap smallSite ''http://a.example/pages.xml'' False
     = Some (Inr [\<lparr>sitemapEntry.url = ''http://a.example/'', lastmod = None, changefreq = None,
                    priority = Some ''0.8''\<rparr>])"
    by (subst parseSitemap.simps) (simp add: loadXml_def smallSite_documents rethrow_def)
  have index2: "parseSitemap smallSite ''http://a.example/index2.xml'' False
     = Some (Inr [\<lparr>sitemapEntry.url = ''http://a.example/'', lastmod = None, changefreq = None,
                    priority = Some ''0.8''\<rparr>])"
    by (subst parseSitemap.simps)
       (simp add: loadXml_def smallSite_documents rethrow_def pages)
  have gone: "parseSitemap smallSite ''http://a.example/gone.xml'' False
     = Some (Inl ''Failed to parse sitemap: Request failed with status code 404'')"
    by (subst parseSitemap.simps) (simp add: loadXml_def smallSite_documents rethrow_def)
  show ?thesis
    by (subst parseSitemap.simps)
       (simp add: loadXml_def smallSite_documents rethrow_def index2 gone)
qed

text \<open>
  An entry without \<^verbatim>\<open>loc\<close> before the one that lists the index itself: the call throws
  the \<^verbatim>\<open>TypeError\<close> before it comes to fetch its own URL again.
\<close>

lemma parseSitemap_missing_loc_first:
  assumes "httpGet w u = Some (Inr (SitemapIndex (None # sitemaps)))"
  shows "parseSitemap w u False = Some (Inl (''Failed to parse sitemap: '' @ typeError))"
  using assms by (subst parseSitemap.simps) (simp add: loadXml_def rethrow_def)

section \<open>Properties of the Map and Set models\<close>

lemma set_setAdd: "set (setAdd s x) = insert x (set s)"
  by (auto simp: setAdd_def)

lemma set_fold_setAdd: "set (fold (\<lambda>x s. setAdd s x) xs s) = set s \<union> set xs"
  by (induction xs arbitrary: s) (auto simp: set_setAdd)

lemma set_newSet: "set (newSet xs) = set xs"
  by (simp add: newSet_def set_fold_setAdd)

lemma distinct_fold_setAdd: "distinct s \<Longrightarrow> distinct (fold (\<lambda>x s. setAdd s x) xs s)"
  by (induction xs arbitrary: s) (auto simp: setAdd_def)

lemma distinct_newSet: "distinct (newSet xs)"
  by (simp add: newSet_def distinct_fold_setAdd)

lemma keys_mapSet: "fst ` set (mapSet m k v) = insert k (fst ` set m)"
  by (induction m k v rule: mapSet.induct) auto

lemma distinct_mapSet: "distinct (map fst m) \<Longrightarrow> distinct (map fst (mapSet m k v))"
  by (induction m k v rule: mapSet.induct) (auto simp: keys_mapSet)

lemma map_of_mapSet: "map_of (mapSet m k v) = (map_of m)(k \<mapsto> v)"
  by (induction m k v rule: mapSet.induct) (auto simp: fun_eq_iff)

lemma length_mapSet: "length (mapSet m k v) = (if k \<in> fst ` set m then length m else Suc (length m))"
  by (induction m k v rule: mapSet.induct) auto

lemma fold_mapSet:
  "distinct (map fst m) \<Longrightarrow>
   distinct (map fst (fold (\<lambda>(k, v) m. mapSet m k v) ps m))
   \<and> fst ` set (fold (\<lambda>(k, v) m. mapSet m k v) ps m) = fst ` set m \<union> fst ` set ps
   \<and> map_of (fold (\<lambda>(k, v) m. mapSet m k v) ps m) = map_of m ++ map_of (rev ps)"
proof (induction ps arbitrary: m)
  case Nil
  then show ?case by simp
next
  case (Cons p ps)
  obtain k v where p: "p = (k, v)" by (cases p)
  have d: "distinct (map fst (mapSet m k v))" using Cons.prems by (rule distinct_mapSet)
  from Cons.IH [OF d] show ?case
    by (auto simp: p keys_mapSet map_of_mapSet map_add_def fun_eq_iff split: option.splits)
qed

lemma newMap_props:
  "distinct (map fst (newMap ps))"
  "fst ` set (newMap ps) = fst ` set ps"
  "map_of (newMap ps) = map_of (rev ps)"
  using fold_mapSet [of "[]" ps] by (simp_all add: newMap_def)

lemma newMap_entry_iff: "(k, v) \<in> set (newMap ps) \<longleftrightarrow> map_of (rev ps) k = Some v"
  using newMap_props(1,3) [of ps] by (metis map_of_eq_Some_iff)

lemma newMap_subset: "set (newMap ps) \<subseteq> set ps"
proof
  fix e assume "e \<in> set (newMap ps)"
  then have "(fst e, snd e) \<in> set (newMap ps)" by simp
  then have "map_of (rev ps) (fst e) = Some (snd e)" by (simp only: newMap_entry_iff)
  then have "(fst e, snd e) \<in> set (rev ps)" by (rule map_of_SomeD)
  then show "e \<in> set ps" by simp
qed

lemma length_newMap: "length (newMap ps) = card (fst ` set ps)"
proof -
  have "length (newMap ps) = length (map fst (newMap ps))" by simp
  also have "\<dots> = card (set (map fst (newMap ps)))"
    using newMap_props(1) [of ps] by (simp only: distinct_card)
  also have "\<dots> = card (fst ` set ps)" using newMap_props(2) [of ps] by simp
  finally show ?thesis .
qed

section \<open>The loop over the old URLs\<close>

lemma checkOldUrl_cases:
  "checkOldUrl URL N rm e r =
     (if fst e \<in> set N then r\<lparr>matched := matched r @ [directEntry e]\<rparr>
      else if redirectTarget URL N rm e = None
      then r\<lparr>missing := missing r @ [missingEntryOf URL N e]\<rparr>
      else r\<lparr>redirected := redirected r @ mappedEntries URL N rm e\<rparr>)"
  by (cases e)
     (simp add: checkOldUrl_def redirectTarget_def directEntry_def mappedEntries_def
        missingEntryOf_def split: option.splits)

lemma fold_checkOldUrl:
  "fold (checkOldUrl URL N rm) es r =
     r\<lparr>matched := matched r @ map directEntry (filter (\<lambda>e. fst e \<in> set N) es),
       redirected := redirected r @ concat (map (mappedEntries URL N rm) es),
       missing := missing r
         @ map (missingEntryOf URL N)
             (filter (\<lambda>e. fst e \<notin> set N \<and> redirectTarget URL N rm e = None) es)\<rparr>"
proof (induction es arbitrary: r)
  case Nil
  show ?case by simp
next
  case (Cons e es)
  have step: "fold (checkOldUrl URL N rm) (e # es) r
                = fold (checkOldUrl URL N rm) es (checkOldUrl URL N rm e r)"
    by simp
  consider (direct) "fst e \<in> set N"
    | (none) "fst e \<notin> set N" "redirectTarget URL N rm e = None"
    | (mapped) t where "fst e \<notin> set N" "redirectTarget URL N rm e = Some t"
    by (cases "redirectTarget URL N rm e") auto
  then show ?case
  proof cases
    case direct
    then have "mappedEntries URL N rm e = []"
      by (simp add: mappedEntries_def redirectTarget_def)
    with direct show ?thesis
      unfolding step Cons.IH by (simp add: checkOldUrl_cases)
  next
    case none
    then have "mappedEntries URL N rm e = []"
      by (simp add: mappedEntries_def)
    with none show ?thesis
      unfolding step Cons.IH by (simp add: checkOldUrl_cases)
  next
    case mapped
    then show ?thesis
      unfolding step Cons.IH by (simp add: checkOldUrl_cases)
  qed
qed

lemma fold_checkNewUrl:
  "matched (fold (checkNewUrl URL M rm) us r) = matched r
   \<and> redirected (fold (checkNewUrl URL M rm) us r) = redirected r
   \<and> missing (fold (checkNewUrl URL M rm) us r) = missing r
   \<and> comparison.summary (fold (checkNewUrl URL M rm) us r) = comparison.summary r"
  by (induction us arbitrary: r) (simp_all add: checkNewUrl_def Let_def)

lemma bucket_lengths:
  "length (filter (\<lambda>e. fst e \<in> set N) es)
   + length (concat (map (mappedEntries URL N rm) es))
   + length (filter (\<lambda>e. fst e \<notin> set N \<and> redirectTarget URL N rm e = None) es)
   = length es"
proof (induction es)
  case Nil
  show ?case by simp
next
  case (Cons e es)
  have one: "(if fst e \<in> set N then 1 else 0) + length (mappedEntries URL N rm e)
             + (if fst e \<notin> set N \<and> redirectTarget URL N rm e = None then 1 else 0) = (1::nat)"
    by (cases "redirectTarget URL N rm e") (auto simp: mappedEntries_def redirectTarget_def)
  from Cons.IH one show ?case by (simp split: if_splits)
qed

text \<open>The three buckets of old URLs, as \<^verbatim>\<open>compareUrls\<close> returns them.\<close>

lemma compareUrls_matched:
  "matched (compareUrls URL oldUrls newUrls rm) =
     map directEntry
       (filter (\<lambda>e. fst e \<in> normalizeUrl URL ` set newUrls)
          (newMap (map (\<lambda>u. (normalizeUrl URL u, u)) oldUrls)))"
  by (simp add: compareUrls_def Let_def summarize_def fold_checkNewUrl fold_checkOldUrl
        initialResults_def set_newSet)

lemma compareUrls_redirected:
  "redirected (compareUrls URL oldUrls newUrls rm) =
     concat (map (mappedEntries URL (newSet (map (normalizeUrl URL) newUrls)) rm)
               (newMap (map (\<lambda>u. (normalizeUrl URL u, u)) oldUrls)))"
  by (simp add: compareUrls_def Let_def summarize_def fold_checkNewUrl fold_checkOldUrl
        initialResults_def)

lemma compareUrls_missing:
  "missing (compareUrls URL oldUrls newUrls rm) =
     map (missingEntryOf URL (newSet (map (normalizeUrl URL) newUrls)))
       (filter (\<lambda>e. fst e \<notin> normalizeUrl URL ` set newUrls
                    \<and> redirectTarget URL (newSet (map (normalizeUrl URL) newUrls)) rm e = None)
          (newMap (map (\<lambda>u. (normalizeUrl URL u, u)) oldUrls)))"
  by (simp add: compareUrls_def Let_def summarize_def fold_checkNewUrl fold_checkOldUrl
        initialResults_def set_newSet)

lemma compareUrls_bucket_total:
  "length (matched (compareUrls URL oldUrls newUrls rm))
   + length (redirected (compareUrls URL oldUrls newUrls rm))
   + length (missing (compareUrls URL oldUrls newUrls rm))
   = card (normalizeUrl URL ` set oldUrls)"
proof -
  let ?N = "newSet (map (normalizeUrl URL) newUrls)"
  let ?M = "newMap (map (\<lambda>u. (normalizeUrl URL u, u)) oldUrls)"
  have "length (matched (compareUrls URL oldUrls newUrls rm))
        + length (redirected (compareUrls URL oldUrls newUrls rm))
        + length (missing (compareUrls URL oldUrls newUrls rm)) = length ?M"
    using bucket_lengths [of ?N ?M URL rm]
    by (simp add: compareUrls_matched compareUrls_redirected compareUrls_missing set_newSet)
  also have "\<dots> = card (normalizeUrl URL ` set oldUrls)"
    by (simp add: length_newMap image_image)
  finally show ?thesis .
qed

section \<open>The suggestion for a missing URL\<close>

lemma similarStep_bestSoFar:
  "bestSoFar URL tp S st \<Longrightarrow> s \<in> S \<Longrightarrow> bestSoFar URL tp S (similarStep URL tp s st)"
  by (cases "URL s") (auto simp: similarStep_def bestSoFar_def Let_def)

lemma fold_similarStep_bestSoFar:
  "bestSoFar URL tp S st \<Longrightarrow> set cs \<subseteq> S \<Longrightarrow> bestSoFar URL tp S (fold (similarStep URL tp) cs st)"
  by (induction cs arbitrary: st) (simp_all add: similarStep_bestSoFar)

lemma similarStep_grows: "fst st \<le> fst (similarStep URL tp s st)"
  by (cases "URL s") (auto simp: similarStep_def Let_def)

lemma fold_similarStep_grows: "fst st \<le> fst (fold (similarStep URL tp) cs st)"
proof (induction cs arbitrary: st)
  case Nil
  show ?case by simp
next
  case (Cons s cs)
  have "fst st \<le> fst (similarStep URL tp s st)" by (rule similarStep_grows)
  also have "\<dots> \<le> fst (fold (similarStep URL tp) cs (similarStep URL tp s st))" by (rule Cons.IH)
  finally show ?case by simp
qed

lemma fold_similarStep_bound:
  "s \<in> set cs \<Longrightarrow> URL s = Some c \<Longrightarrow>
   calculateSimilarity tp (pathname c) \<le> 1 / 2
   \<or> calculateSimilarity tp (pathname c) \<le> fst (fold (similarStep URL tp) cs st)"
proof (induction cs arbitrary: st)
  case Nil
  then show ?case by simp
next
  case (Cons x cs)
  show ?case
  proof (cases "s = x")
    case True
    have "calculateSimilarity tp (pathname c) \<le> 1 / 2
          \<or> calculateSimilarity tp (pathname c) \<le> fst (similarStep URL tp x st)"
      using Cons.prems(2) True by (auto simp: similarStep_def Let_def)
    moreover have "fst (similarStep URL tp x st)
                   \<le> fst (fold (similarStep URL tp) cs (similarStep URL tp x st))"
      by (rule fold_similarStep_grows)
    ultimately show ?thesis by auto
  next
    case False
    with Cons.prems have "s \<in> set cs" by simp
    from Cons.IH [OF this Cons.prems(2)] show ?thesis by simp
  qed
qed

lemma findSimilarUrl_Some:
  assumes "findSimilarUrl URL target cs = Some s"
  shows "s \<in> set cs
         \<and> (\<exists>t c. URL target = Some t \<and> URL s = Some c
               \<and> calculateSimilarity (pathname t) (pathname c) > 1 / 2
               \<and> (\<forall>s' \<in> set cs. \<forall>c'. URL s' = Some c' \<longrightarrow>
                      calculateSimilarity (pathname t) (pathname c')
                        \<le> calculateSimilarity (pathname t) (pathname c)))"
proof -
  from assms obtain t where t: "URL target = Some t"
    by (cases "URL target") (auto simp: findSimilarUrl_def split: if_splits)
  let ?res = "fold (similarStep URL (pathname t)) cs (0, None)"
  from assms t have res: "snd ?res = Some s"
    by (auto simp: findSimilarUrl_def split: if_splits)
  have "bestSoFar URL (pathname t) (set cs) ?res"
    by (rule fold_similarStep_bestSoFar) (simp_all add: bestSoFar_def)
  with res obtain c where c: "s \<in> set cs" "URL s = Some c"
      "calculateSimilarity (pathname t) (pathname c) = fst ?res" "fst ?res > 1 / 2"
    by (auto simp: bestSoFar_def)
  have "calculateSimilarity (pathname t) (pathname c')
          \<le> calculateSimilarity (pathname t) (pathname c)"
    if "s' \<in> set cs" "URL s' = Some c'" for s' c'
    using fold_similarStep_bound
            [where URL = URL and tp = "pathname t" and st = "(0, None)", OF that] c(3,4)
    by auto
  with t c show ?thesis by auto
qed

lemma findSimilarUrl_None:
  assumes "findSimilarUrl URL target cs = None" and "URL target = Some t"
    and "s' \<in> set cs" and "URL s' = Some c'"
  shows "calculateSimilarity (pathname t) (pathname c') \<le> 1 / 2"
proof -
  let ?res = "fold (similarStep URL (pathname t)) cs (0, None)"
  from assms have res: "snd ?res = None"
    by (auto simp: findSimilarUrl_def split: if_splits)
  have "bestSoFar URL (pathname t) (set cs) ?res"
    by (rule fold_similarStep_bestSoFar) (simp_all add: bestSoFar_def)
  with res have "fst ?res = 0" by (auto simp: bestSoFar_def)
  with fold_similarStep_bound
         [where URL = URL and tp = "pathname t" and st = "(0, None)", OF assms(3,4)]
  show ?thesis by auto
qed

section \<open>The buckets and the summary of the correspondence report\<close>

lemma compareUrls_oldUrl_subset:
  "oldUrl ` set (matched (compareUrls URL oldUrls newUrls rm)) \<subseteq> set oldUrls"
  "oldUrl ` set (redirected (compareUrls URL oldUrls newUrls rm)) \<subseteq> set oldUrls"
  "oldUrl ` set (missing (compareUrls URL oldUrls newUrls rm)) \<subseteq> set oldUrls"
  using newMap_subset [of "map (\<lambda>u. (normalizeUrl URL u, u)) oldUrls"]
  by (auto simp: compareUrls_matched compareUrls_redirected compareUrls_missing directEntry_def
        mappedEntries_def missingEntryOf_def split: option.splits)

text \<open>
  C1. The three buckets are filled from a \<^verbatim>\<open>Map\<close> keyed by the normalized old URL, so
  old URLs that share a normalized form are classified once, while \<^verbatim>\<open>totalOldUrls\<close>
  counts them all. Here two distinct old URLs differ in the trailing slash only: the
  buckets hold one entry, for the second URL, and the first URL is in no bucket.
\<close>

theorem compareUrls_bucket_total_failing:
  "(let R = compareUrls parseUrl [''http://a.com/x'', ''http://a.com/x/''] [] None
    in length (matched R) + length (redirected R) + length (missing R) = 1
       \<and> totalOldUrls (comparison.summary R) = 2
       \<and> missing R = [\<lparr>oldUrl = ''http://a.com/x/'', suggestion = None\<rparr>])"
proof -
  have n1: "normalizeUrl parseUrl ''http://a.com/x'' = ''http://a.com/x''"
    by (simp add: normalizeUrl_eval parseUrl_eval)
  have n2: "normalizeUrl parseUrl ''http://a.com/x/'' = ''http://a.com/x''"
    by (simp add: normalizeUrl_eval parseUrl_eval)
  show ?thesis
    by (simp add: compareUrls_eval n1 n2 findSimilarUrl_def)
qed

text \<open>
  C2 as stated fails: the direct match is tested first, so an old URL whose own
  normalized form is among the new URLs is classified as matched even when the
  redirect map sends it to an existing new URL.
\<close>

theorem compareUrls_redirect_counterexample:
  "(let R = compareUrls parseUrl [''http://a.com/x''] [''http://a.com/x'', ''http://a.com/y'']
              (Some [(''http://a.com/x'', ''http://a.com/y'')])
    in redirected R = []
       \<and> matched R = [\<lparr>oldUrl = ''http://a.com/x'', newUrl = ''http://a.com/x'',
                         matchType = ''direct''\<rparr>])"
proof -
  have n1: "normalizeUrl parseUrl ''http://a.com/x'' = ''http://a.com/x''"
    by (simp add: normalizeUrl_eval parseUrl_eval)
  have n2: "normalizeUrl parseUrl ''http://a.com/y'' = ''http://a.com/y''"
    by (simp add: normalizeUrl_eval parseUrl_eval)
  show ?thesis
    by (simp add: compareUrls_eval n1 n2)
qed

text \<open>
  C2, amended. Let \<open>u\<close> be an old URL that shares its normalized form with no other old
  URL, and let the redirect map send \<open>u\<close> to \<open>n\<close> with \<open>normalize n\<close> among the normalized
  new URLs. If \<open>normalize u\<close> is itself among the normalized new URLs, the direct match is
  found first: \<open>u\<close> is classified as matched, with \<open>newUrl = u\<close> and match type
  \<^verbatim>\<open>direct\<close>. Otherwise \<open>u\<close> is classified as redirected, with \<open>newUrl = n\<close> and match type
  \<^verbatim>\<open>mapped\<close>. In both cases \<open>u\<close> is in neither of the other two buckets.
\<close>

theorem compareUrls_redirect_amended:
  assumes old: "u \<in> set oldUrls"
    and single: "\<forall>o' \<in> set oldUrls. normalizeUrl URL o' = normalizeUrl URL u \<longrightarrow> o' = u"
    and mapped: "redirectGet redirectMap u = Some n"
    and target: "normalizeUrl URL n \<in> normalizeUrl URL ` set newUrls"
  shows "(let R = compareUrls URL oldUrls newUrls redirectMap
          in if normalizeUrl URL u \<in> normalizeUrl URL ` set newUrls
             then \<lparr>oldUrl = u, newUrl = u, matchType = ''direct''\<rparr> \<in> set (matched R)
                  \<and> u \<notin> oldUrl ` set (redirected R)
                  \<and> u \<notin> oldUrl ` set (missing R)
             else \<lparr>oldUrl = u, newUrl = n, matchType = ''mapped''\<rparr> \<in> set (redirected R)
                  \<and> u \<notin> oldUrl ` set (matched R)
                  \<and> u \<notin> oldUrl ` set (missing R))"
proof -
  let ?ps = "map (\<lambda>u. (normalizeUrl URL u, u)) oldUrls"
  let ?M = "newMap ?ps"
  let ?N = "newSet (map (normalizeUrl URL) newUrls)"
  let ?R = "compareUrls URL oldUrls newUrls redirectMap"
  have N: "set ?N = normalizeUrl URL ` set newUrls" by (simp add: set_newSet)
  have key: "fst e = normalizeUrl URL (snd e)" "snd e \<in> set oldUrls" if "e \<in> set ?M" for e
    using newMap_subset [of ?ps] that by auto
  have "(normalizeUrl URL u, u) \<in> set (rev ?ps)" using old by auto
  then obtain v where v: "map_of (rev ?ps) (normalizeUrl URL u) = Some v"
    using weak_map_of_SomeI by fastforce
  then have "(normalizeUrl URL u, v) \<in> set ?M" by (simp add: newMap_entry_iff)
  with key [of "(normalizeUrl URL u, v)"] single have "v = u" by auto
  with v have entry: "(normalizeUrl URL u, u) \<in> set ?M" by (simp add: newMap_entry_iff)
  have not_missing: "u \<notin> oldUrl ` set (missing ?R)"
  proof
    assume "u \<in> oldUrl ` set (missing ?R)"
    then obtain e where e: "e \<in> set ?M" "fst e \<notin> normalizeUrl URL ` set newUrls"
        "redirectTarget URL ?N redirectMap e = None" "snd e = u"
      by (auto simp: compareUrls_missing missingEntryOf_def)
    from key [OF e(1)] e(2,4) mapped target
    have "redirectTarget URL ?N redirectMap e = Some n"
      by (simp add: redirectTarget_def N)
    with e(3) show False by simp
  qed
  show ?thesis
  proof (cases "normalizeUrl URL u \<in> normalizeUrl URL ` set newUrls")
    case True
    from entry True have in_matched:
      "\<lparr>oldUrl = u, newUrl = u, matchType = ''direct''\<rparr> \<in> set (matched ?R)"
      by (force simp: compareUrls_matched directEntry_def)
    have not_redirected: "u \<notin> oldUrl ` set (redirected ?R)"
    proof
      assume "u \<in> oldUrl ` set (redirected ?R)"
      then obtain e where e: "e \<in> set ?M" "fst e \<notin> set ?N" "snd e = u"
        by (auto simp: compareUrls_redirected mappedEntries_def redirectTarget_def
              split: option.splits if_splits)
      with key [OF e(1)] True N show False by simp
    qed
    from True in_matched not_redirected not_missing show ?thesis
      by (simp add: Let_def)
  next
    case False
    have "redirectTarget URL ?N redirectMap (normalizeUrl URL u, u) = Some n"
      using mapped target False by (simp add: redirectTarget_def N)
    then have "mappedEntries URL ?N redirectMap (normalizeUrl URL u, u)
                 = [\<lparr>oldUrl = u, newUrl = n, matchType = ''mapped''\<rparr>]"
      by (simp add: mappedEntries_def)
    with entry have in_redirected:
      "\<lparr>oldUrl = u, newUrl = n, matchType = ''mapped''\<rparr> \<in> set (redirected ?R)"
      by (force simp: compareUrls_redirected)
    have not_matched: "u \<notin> oldUrl ` set (matched ?R)"
    proof
      assume "u \<in> oldUrl ` set (matched ?R)"
      then obtain e where e: "e \<in> set ?M" "fst e \<in> normalizeUrl URL ` set newUrls" "snd e = u"
        by (auto simp: compareUrls_matched directEntry_def)
      with key [OF e(1)] False show False by simp
    qed
    from False in_redirected not_matched not_missing show ?thesis
      by (simp add: Let_def)
  qed
qed

theorem compareUrls_redirect_amended_witness:
  "\<lparr>oldUrl = ''https://old.site/legacy'', newUrl = ''https://new.site/shiny'',
     matchType = ''mapped''\<rparr>
     \<in> set (redirected (compareUrls parseUrl [''https://old.site/legacy'']
                          [''https://new.site/shiny'']
                          (Some [(''https://old.site/legacy'', ''https://new.site/shiny'')])))
   \<and> \<lparr>oldUrl = ''https://new.site/kept'', newUrl = ''https://new.site/kept'',
       matchType = ''direct''\<rparr>
     \<in> set (matched (compareUrls parseUrl [''https://new.site/kept'']
                       [''https://new.site/kept'', ''https://new.site/shiny'']
                       (Some [(''https://new.site/kept'', ''https://new.site/shiny'')])))
   \<and> ''https://new.site/kept''
     \<notin> oldUrl ` set (redirected (compareUrls parseUrl [''https://new.site/kept'']
                       [''https://new.site/kept'', ''https://new.site/shiny'']
                       (Some [(''https://new.site/kept'', ''https://new.site/shiny'')])))"
proof -
  have n1: "normalizeUrl parseUrl ''https://old.site/legacy'' = ''https://old.site/legacy''"
    by (simp add: normalizeUrl_eval parseUrl_eval)
  have n2: "normalizeUrl parseUrl ''https://new.site/shiny'' = ''https://new.site/shiny''"
    by (simp add: normalizeUrl_eval parseUrl_eval)
  have n3: "normalizeUrl parseUrl ''https://new.site/kept'' = ''https://new.site/kept''"
    by (simp add: normalizeUrl_eval parseUrl_eval)
  from compareUrls_redirect_amended
         [of "''https://old.site/legacy''" "[''https://old.site/legacy'']" parseUrl
             "Some [(''https://old.site/legacy'', ''https://new.site/shiny'')]"
             "''https://new.site/shiny''" "[''https://new.site/shiny'']"]
  have mapped: "\<lparr>oldUrl = ''https://old.site/legacy'', newUrl = ''https://new.site/shiny'',
       matchType = ''mapped''\<rparr>
     \<in> set (redirected (compareUrls parseUrl [''https://old.site/legacy'']
                          [''https://new.site/shiny'']
                          (Some [(''https://old.site/legacy'', ''https://new.site/shiny'')])))"
    by (simp add: n1 n2 redirectGet_def Let_def)
  from compareUrls_redirect_amended
         [of "''https://new.site/kept''" "[''https://new.site/kept'']" parseUrl
             "Some [(''https://new.site/kept'', ''https://new.site/shiny'')]"
             "''https://new.site/shiny''" "[''https://new.site/kept'', ''https://new.site/shiny'']"]
  have direct: "\<lparr>oldUrl = ''https://new.site/kept'', newUrl = ''https://new.site/kept'',
       matchType = ''direct''\<rparr>
     \<in> set (matched (compareUrls parseUrl [''https://new.site/kept'']
                       [''https://new.site/kept'', ''https://new.site/shiny'']
                       (Some [(''https://new.site/kept'', ''https://new.site/shiny'')])))
   \<and> ''https://new.site/kept''
     \<notin> oldUrl ` set (redirected (compareUrls parseUrl [''https://new.site/kept'']
                       [''https://new.site/kept'', ''https://new.site/shiny'']
                       (Some [(''https://new.site/kept'', ''https://new.site/shiny'')])))"
    by (simp add: n2 n3 redirectGet_def Let_def)
  from mapped direct show ?thesis by (rule conjI)
qed

text \<open>
  C4 as stated fails twice. The rate is a percentage: with one old URL that is
  redirected the quotient \<open>(|matched| + |redirected|) / |oldUrls|\<close> is 1 and
  \<^verbatim>\<open>matchRate\<close> is the string \<^verbatim>\<open>100.00\<close>. And with no old URL the counts of the
  new side are not zero.
\<close>

theorem compareUrls_summary_counterexample:
  "(let R = compareUrls parseUrl [''https://old.site/legacy''] [''https://new.site/shiny'']
              (Some [(''https://old.site/legacy'', ''https://new.site/shiny'')]);
        E = compareUrls parseUrl [] [''https://new.site/shiny''] None
    in (of_nat (length (matched R) + length (redirected R)) / of_nat 1 :: rat) = 1
       \<and> matchRate (comparison.summary R) = Str ''100.00''
       \<and> newCount (comparison.summary E) = 1 \<and> totalNewUrls (comparison.summary E) = 1)"
proof -
  have n1: "normalizeUrl parseUrl ''https://old.site/legacy'' = ''https://old.site/legacy''"
    by (simp add: normalizeUrl_eval parseUrl_eval)
  have n2: "normalizeUrl parseUrl ''https://new.site/shiny'' = ''https://new.site/shiny''"
    by (simp add: normalizeUrl_eval parseUrl_eval)
  have R: "compareUrls parseUrl [''https://old.site/legacy''] [''https://new.site/shiny'']
             (Some [(''https://old.site/legacy'', ''https://new.site/shiny'')])
           = \<lparr>matched = [], missing = [], new = [],
               redirected = [\<lparr>oldUrl = ''https://old.site/legacy'',
                               newUrl = ''https://new.site/shiny'', matchType = ''mapped''\<rparr>],
               comparison.summary = \<lparr>totalOldUrls = 1, totalNewUrls = 1, matchedCount = 0,
                           missingCount = 0, newCount = 0, redirectedCount = 1,
                           matchRate = Str (toFixed2 (numberTimes (numberDivide 1 1) 100))\<rparr>\<rparr>"
    by (simp add: compareUrls_eval n1 n2)
  have E: "compareUrls parseUrl [] [''https://new.site/shiny''] None
           = \<lparr>matched = [], missing = [],
               new = [\<lparr>newEntryUrl = ''https://new.site/shiny'', entryType = ''new_content''\<rparr>],
               redirected = [],
               comparison.summary = \<lparr>totalOldUrls = 0, totalNewUrls = 1, matchedCount = 0,
                           missingCount = 0, newCount = 1, redirectedCount = 0,
                           matchRate = Num 0\<rparr>\<rparr>"
    by (simp add: compareUrls_eval n2)
  show ?thesis
    unfolding R E by (simp add: percentage_1_of_1)
qed

text \<open>
  C4, amended. Each count of the summary is the size of its bucket, and
  \<^verbatim>\<open>totalOldUrls\<close> and \<^verbatim>\<open>totalNewUrls\<close> are the sizes of the two inputs. When there are
  old URLs, \<^verbatim>\<open>matchRate\<close> is the string that \<^verbatim>\<open>toFixed(2)\<close> makes of the double
  \<^verbatim>\<open>(|matched| + |redirected|) / |oldUrls| * 100\<close>: a percentage with two decimals, where
  the double is within \<open>1 / 2 ^ 44\<close> of the exact percentage. When there are none,
  \<^verbatim>\<open>matchRate\<close> is the number 0 and the buckets of the old side are empty.
\<close>

theorem compareUrls_summary_amended:
  "(let R = compareUrls URL oldUrls newUrls redirectMap;
        hits = length (matched R) + length (redirected R);
        rate = numberTimes (numberDivide (of_nat hits) (of_nat (length oldUrls))) 100
    in matchedCount (comparison.summary R) = length (matched R)
       \<and> redirectedCount (comparison.summary R) = length (redirected R)
       \<and> missingCount (comparison.summary R) = length (missing R)
       \<and> newCount (comparison.summary R) = length (new R)
       \<and> totalOldUrls (comparison.summary R) = length oldUrls
       \<and> totalNewUrls (comparison.summary R) = length newUrls
       \<and> (oldUrls \<noteq> [] \<longrightarrow>
            matchRate (comparison.summary R) = Str (toFixed2 rate)
            \<and> \<bar>rate - of_nat hits / of_nat (length oldUrls) * 100\<bar> \<le> 1 / 2 ^ 44)
       \<and> (oldUrls = [] \<longrightarrow>
            matchRate (comparison.summary R) = Num 0 \<and> matched R = [] \<and> redirected R = []
            \<and> missing R = []))"
proof -
  define M where "M = newMap (map (\<lambda>u. (normalizeUrl URL u, u)) oldUrls)"
  define N where "N = newSet (map (normalizeUrl URL) newUrls)"
  define r2 where "r2 = fold (checkNewUrl URL M redirectMap) newUrls
                          (fold (checkOldUrl URL N redirectMap) M (initialResults oldUrls newUrls))"
  define R where "R = compareUrls URL oldUrls newUrls redirectMap"
  define hits where "hits = length (matched R) + length (redirected R)"
  have R: "R = summarize oldUrls r2"
    by (simp add: R_def compareUrls_def Let_def r2_def M_def N_def)
  have buckets: "matched R = matched r2" "redirected R = redirected r2" "missing R = missing r2"
      "new R = new r2"
    by (simp_all add: R summarize_def)
  have s2: "comparison.summary r2 = comparison.summary (initialResults oldUrls newUrls)"
    by (simp add: r2_def fold_checkNewUrl fold_checkOldUrl)
  have totals: "totalOldUrls (comparison.summary R) = length oldUrls"
      "totalNewUrls (comparison.summary R) = length newUrls"
    by (simp_all add: R summarize_def s2 initialResults_def)
  have counts: "matchedCount (comparison.summary R) = length (matched R)"
      "redirectedCount (comparison.summary R) = length (redirected R)"
      "missingCount (comparison.summary R) = length (missing R)"
      "newCount (comparison.summary R) = length (new R)"
    by (simp_all add: R summarize_def)
  have "M = []" if "oldUrls = []"
    using that by (simp add: M_def newMap_def)
  then have empty: "matched R = [] \<and> redirected R = [] \<and> missing R = []" if "oldUrls = []"
    using that by (simp add: buckets r2_def fold_checkNewUrl initialResults_def)
  have zero: "matchRate (comparison.summary R) = Num 0" if "oldUrls = []"
    using that by (simp add: R summarize_def)
  have rate: "matchRate (comparison.summary R)
      = Str (toFixed2 (numberTimes (numberDivide (of_nat hits) (of_nat (length oldUrls))) 100))"
    if "oldUrls \<noteq> []"
    using that by (simp add: R summarize_def hits_def)
  have "hits \<le> card (normalizeUrl URL ` set oldUrls)"
    using compareUrls_bucket_total [of URL oldUrls newUrls redirectMap]
    by (simp add: hits_def R_def)
  also have "\<dots> \<le> card (set oldUrls)" by (rule card_image_le) simp
  also have "\<dots> \<le> length oldUrls" by (rule card_length)
  finally have part: "hits \<le> length oldUrls" .
  have near: "\<bar>numberTimes (numberDivide (of_nat hits) (of_nat (length oldUrls))) 100
                - of_nat hits / of_nat (length oldUrls) * 100\<bar> \<le> 1 / 2 ^ 44"
    if "oldUrls \<noteq> []"
    using that by (intro percentage_error part) simp
  from rate near have some: "oldUrls \<noteq> [] \<longrightarrow>
      matchRate (comparison.summary R)
        = Str (toFixed2 (numberTimes (numberDivide (of_nat hits) (of_nat (length oldUrls))) 100))
      \<and> \<bar>numberTimes (numberDivide (of_nat hits) (of_nat (length oldUrls))) 100
           - of_nat hits / of_nat (length oldUrls) * 100\<bar> \<le> 1 / 2 ^ 44"
    by blast
  from zero empty have none: "oldUrls = [] \<longrightarrow>
      matchRate (comparison.summary R) = Num 0 \<and> matched R = [] \<and> redirected R = []
      \<and> missing R = []"
    by blast
  show ?thesis
    unfolding Let_def R_def [symmetric] hits_def [symmetric]
    by (intro conjI counts totals some none)
qed

theorem compareUrls_summary_amended_witness:
  "matchRate (comparison.summary (compareUrls parseUrl
       [''https://old.site/'', ''https://old.site/a'', ''https://old.site/b/'']
       [''https://old.site/'', ''https://old.site/a''] None)) = Str ''66.67''
   \<and> matchRate (comparison.summary (compareUrls parseUrl [] [''https://old.site/''] None)) = Num 0"
proof -
  have n1: "normalizeUrl parseUrl ''https://old.site/'' = ''https://old.site/''"
    by (simp add: normalizeUrl_eval parseUrl_eval)
  have n2: "normalizeUrl parseUrl ''https://old.site/a'' = ''https://old.site/a''"
    by (simp add: normalizeUrl_eval parseUrl_eval)
  have n3: "normalizeUrl parseUrl ''https://old.site/b/'' = ''https://old.site/b''"
    by (simp add: normalizeUrl_eval parseUrl_eval)
  let ?old = "[''https://old.site/'', ''https://old.site/a'', ''https://old.site/b/'']"
  let ?new = "[''https://old.site/'', ''https://old.site/a'']"
  have m: "length (matched (compareUrls parseUrl ?old ?new None)) = 2"
    by (simp add: compareUrls_matched newMap_def n1 n2 n3)
  have r: "length (redirected (compareUrls parseUrl ?old ?new None)) = 0"
    by (simp add: compareUrls_redirected newMap_def n1 n2 n3 mappedEntries_def
          redirectTarget_def redirectGet_def)
  have nonempty: "?old \<noteq> []" by simp
  from compareUrls_summary_amended [of parseUrl ?old ?new None] nonempty
  have first: "matchRate (comparison.summary (compareUrls parseUrl ?old ?new None))
                 = Str (toFixed2 (numberTimes (numberDivide 2 3) 100))"
    unfolding Let_def m r by simp
  from compareUrls_summary_amended [of parseUrl "[]" "[''https://old.site/'']" None]
  have second: "matchRate (comparison.summary (compareUrls parseUrl [] [''https://old.site/''] None)) = Num 0"
    unfolding Let_def by simp
  from first second show ?thesis by (simp add: percentage_2_of_3)
qed

text \<open>
  C5 as stated fails: the candidates handed to \<^verbatim>\<open>findSimilarUrl\<close> are the normalized
  new URLs, so the suggestion need not be one of the new URLs as they were given.
\<close>

theorem compareUrls_suggestion_counterexample:
  "missing (compareUrls parseUrl [''http://old.site/abd''] [''http://www.new.site/abc/''] None)
     = [\<lparr>oldUrl = ''http://old.site/abd'', suggestion = Some ''http://new.site/abc''\<rparr>]
   \<and> ''http://new.site/abc'' \<notin> set [''http://www.new.site/abc/'']"
proof -
  have n1: "normalizeUrl parseUrl ''http://old.site/abd'' = ''http://old.site/abd''"
    by (simp add: normalizeUrl_eval parseUrl_eval)
  have n2: "normalizeUrl parseUrl ''http://www.new.site/abc/'' = ''http://new.site/abc''"
    by (simp add: normalizeUrl_eval parseUrl_eval)
  have p1: "parseUrl ''http://old.site/abd'' =
              Some \<lparr>protocol = ''http:'', hostname = ''old.site'', port = '''',
                     pathname = ''/abd'', search = '''', hash = ''''\<rparr>"
    by (simp add: parseUrl_eval)
  have p2: "parseUrl ''http://new.site/abc'' =
              Some \<lparr>protocol = ''http:'', hostname = ''new.site'', port = '''',
                     pathname = ''/abc'', search = '''', hash = ''''\<rparr>"
    by (simp add: parseUrl_eval)
  have sim: "calculateSimilarity ''/abd'' ''/abc'' = 3 / 4"
    by (simp add: calculateSimilarity_def levenshteinDistance_def)
  show ?thesis
    by (simp add: compareUrls_eval n1 n2 findSimilarUrl_def similarStep_def p1 p2 sim)
qed

text \<open>
  C5, amended. For every old URL classified as missing, the suggestion, when present,
  is one of the normalized new URLs; its path has similarity above 0.5 to the path of the
  normalized old URL, and no normalized new URL that parses has a path of higher
  similarity. When there is no suggestion, either the normalized old URL does not parse
  or no normalized new URL that parses has a path of similarity above 0.5.
\<close>

theorem compareUrls_suggestion_amended:
  assumes "e \<in> set (missing (compareUrls URL oldUrls newUrls redirectMap))"
  shows "case suggestion e of
           Some s \<Rightarrow>
             s \<in> normalizeUrl URL ` set newUrls
             \<and> (\<exists>t c. URL (normalizeUrl URL (oldUrl e)) = Some t \<and> URL s = Some c
                   \<and> calculateSimilarity (pathname t) (pathname c) > 1 / 2
                   \<and> (\<forall>s' \<in> normalizeUrl URL ` set newUrls. \<forall>c'. URL s' = Some c' \<longrightarrow>
                          calculateSimilarity (pathname t) (pathname c')
                            \<le> calculateSimilarity (pathname t) (pathname c)))
         | None \<Rightarrow>
             (\<forall>t. URL (normalizeUrl URL (oldUrl e)) = Some t \<longrightarrow>
                (\<forall>s' \<in> normalizeUrl URL ` set newUrls. \<forall>c'. URL s' = Some c' \<longrightarrow>
                   calculateSimilarity (pathname t) (pathname c') \<le> 1 / 2))"
proof -
  let ?ps = "map (\<lambda>u. (normalizeUrl URL u, u)) oldUrls"
  let ?N = "newSet (map (normalizeUrl URL) newUrls)"
  have N: "set ?N = normalizeUrl URL ` set newUrls" by (simp add: set_newSet)
  from assms obtain k v where kv: "(k, v) \<in> set (newMap ?ps)"
      and e: "e = missingEntryOf URL ?N (k, v)"
    by (auto simp: compareUrls_missing)
  from kv newMap_subset [of ?ps] have k: "k = normalizeUrl URL v" by auto
  from e k have sug: "suggestion e = findSimilarUrl URL (normalizeUrl URL (oldUrl e)) ?N"
    by (simp add: missingEntryOf_def)
  show ?thesis
  proof (cases "suggestion e")
    case None
    with sug have "findSimilarUrl URL (normalizeUrl URL (oldUrl e)) ?N = None" by simp
    from findSimilarUrl_None [OF this] None show ?thesis by (auto simp: N)
  next
    case (Some s)
    with sug have "findSimilarUrl URL (normalizeUrl URL (oldUrl e)) ?N = Some s" by simp
    from findSimilarUrl_Some [OF this] Some show ?thesis by (simp add: N)
  qed
qed

theorem compareUrls_suggestion_amended_witness:
  "suggestion \<lparr>oldUrl = ''http://old.site/abd'', suggestion = Some ''http://new.site/abd''\<rparr>
     = Some ''http://new.site/abd''
   \<and> ''http://new.site/abd'' \<in> normalizeUrl parseUrl ` set [''http://new.site/xyz'', ''http://new.site/abd/'']
   \<and> (\<exists>t c. parseUrl (normalizeUrl parseUrl ''http://old.site/abd'') = Some t
          \<and> parseUrl ''http://new.site/abd'' = Some c
          \<and> calculateSimilarity (pathname t) (pathname c) > 1 / 2)"
proof -
  let ?e = "\<lparr>oldUrl = ''http://old.site/abd'', suggestion = Some ''http://new.site/abd''\<rparr>"
  have n1: "normalizeUrl parseUrl ''http://old.site/abd'' = ''http://old.site/abd''"
    by (simp add: normalizeUrl_eval parseUrl_eval)
  have n2: "normalizeUrl parseUrl ''http://new.site/xyz'' = ''http://new.site/xyz''"
    by (simp add: normalizeUrl_eval parseUrl_eval)
  have n3: "normalizeUrl parseUrl ''http://new.site/abd/'' = ''http://new.site/abd''"
    by (simp add: normalizeUrl_eval parseUrl_eval)
  have p1: "parseUrl ''http://old.site/abd'' =
              Some \<lparr>protocol = ''http:'', hostname = ''old.site'', port = '''',
                     pathname = ''/abd'', search = '''', hash = ''''\<rparr>"
    by (simp add: parseUrl_eval)
  have p2: "parseUrl ''http://new.site/xyz'' =
              Some \<lparr>protocol = ''http:'', hostname = ''new.site'', port = '''',
                     pathname = ''/xyz'', search = '''', hash = ''''\<rparr>"
    by (simp add: parseUrl_eval)
  have p3: "parseUrl ''http://new.site/abd'' =
              Some \<lparr>protocol = ''http:'', hostname = ''new.site'', port = '''',
                     pathname = ''/abd'', search = '''', hash = ''''\<rparr>"
    by (simp add: parseUrl_eval)
  have sim1: "calculateSimilarity ''/abd'' ''/xyz'' = 1 / 4"
    by (simp add: calculateSimilarity_def levenshteinDistance_def)
  have sim2: "calculateSimilarity ''/abd'' ''/abd'' = 1"
    by (simp add: calculateSimilarity_def levenshteinDistance_def)
  have mem: "?e \<in> set (missing (compareUrls parseUrl [''http://old.site/abd'']
                                  [''http://new.site/xyz'', ''http://new.site/abd/''] None))"
    by (simp add: compareUrls_eval n1 n2 n3 findSimilarUrl_def similarStep_def p1 p2 p3 sim1 sim2)
  from compareUrls_suggestion_amended [OF mem]
  show ?thesis by (auto simp: n1 n2 n3)
qed

section \<open>The retry policy and the categories\<close>

lemma retryLoop_exit:
  "atLoopHead responses delay st \<Longrightarrow> attempts st < retryAttempts \<Longrightarrow>
   atLoopExit responses retryAttempts delay (retryLoop responses retryAttempts delay st)"
proof (induction responses retryAttempts delay st rule: retryLoop.induct)
  case (1 responses retryAttempts delay st)
  let ?r = "responses (calls st)"
  let ?st1 = "st\<lparr>result := Some ?r, calls := Suc (calls st)\<rparr>"
  let ?st2 = "?st1\<lparr>attempts := attempts ?st1 + 1\<rparr>"
  let ?st3 = "?st2\<lparr>sleeps := sleeps ?st2 @ [delay * attempts ?st2]\<rparr>"
  from "1.prems" have head: "attempts st = int (calls st)"
      "sleeps st = map (\<lambda>k. delay * int k) [1 ..< Suc (calls st)]"
      "list_all (\<lambda>j. retryable (responses j)) [0 ..< calls st]"
    by (simp_all add: atLoopHead_def)
  show ?case
  proof (cases "retryable ?r")
    case False
    then have "retryLoop responses retryAttempts delay st = ?st1"
      using "1.prems"(2) by (subst retryLoop.simps) (simp add: retryable_def Let_def)
    with False head "1.prems"(2) show ?thesis
      by (simp add: atLoopExit_def)
  next
    case True
    show ?thesis
    proof (cases "attempts ?st2 < retryAttempts")
      case again: True
      have unfold: "retryLoop responses retryAttempts delay st
                      = retryLoop responses retryAttempts delay ?st3"
        using "1.prems"(2) True again
        by (subst retryLoop.simps) (simp add: retryable_def Let_def)
      have "atLoopHead responses delay ?st3"
        using head True by (simp add: atLoopHead_def)
      moreover have "attempts ?st3 < retryAttempts" using again by simp
      ultimately have "atLoopExit responses retryAttempts delay
                         (retryLoop responses retryAttempts delay ?st3)"
        using "1.prems"(2) True again
        by (intro "1.IH" [where x = ?r and xa = ?st1 and xb = ?st2])
           (simp_all add: retryable_def)
      with unfold show ?thesis by simp
    next
      case last: False
      have "retryLoop responses retryAttempts delay st = ?st2"
        using "1.prems"(2) True last
        by (subst retryLoop.simps) (simp add: retryable_def Let_def)
      with True head "1.prems"(2) last show ?thesis
        by (simp add: atLoopExit_def)
    qed
  qed
qed

lemma retryLoop_skipped:
  "\<not> attempts st < retryAttempts \<Longrightarrow> retryLoop responses retryAttempts delay st = st"
  by (subst retryLoop.simps) simp

lemma atLoopHead_start: "atLoopHead responses delay retryStart"
  by (simp add: atLoopHead_def retryStart_def)

text \<open>
  C6. In the task of one URL: a further call of \<^verbatim>\<open>checkUrlStatus\<close> is made only after a
  result with status 0 or at least 500, so never after a 4xx result; the sleep before the
  \<open>k\<close>-th retry is \<open>delay * k\<close>; with \<^verbatim>\<open>retryAttempts = 1\<close> there is no sleep between
  attempts; the loop makes at most \<^verbatim>\<open>retryAttempts\<close> calls and stops earlier only on a
  result that is not retried; and the result that the task records is the last one
  observed.
\<close>

theorem retry_policy:
  "(let st = retryLoop responses retryAttempts delay retryStart
    in (\<forall>j. Suc j < calls st \<longrightarrow>
          (statusCode (responses j) = 0 \<or> statusCode (responses j) \<ge> 500)
          \<and> \<not> (400 \<le> statusCode (responses j) \<and> statusCode (responses j) < 500))
       \<and> sleeps st = map (\<lambda>k. delay * int k) [1 ..< calls st]
       \<and> (retryAttempts = 1 \<longrightarrow> sleeps st = [])
       \<and> int (calls st) \<le> max retryAttempts 0
       \<and> (0 < retryAttempts \<longrightarrow> 0 < calls st)
       \<and> (int (calls st) < retryAttempts \<longrightarrow>
            \<not> (statusCode (responses (calls st - 1)) = 0
               \<or> statusCode (responses (calls st - 1)) \<ge> 500))
       \<and> result st = (if calls st = 0 then None else Some (responses (calls st - 1)))
       \<and> results (checkTask responses retryAttempts delay onProgress urls u b)
           = results b @ [result st])"
proof (cases "0 < retryAttempts")
  case False
  then have "retryLoop responses retryAttempts delay retryStart = retryStart"
    by (intro retryLoop_skipped) (simp add: retryStart_def)
  with False show ?thesis
    by (simp add: Let_def checkTask_def retryStart_def)
next
  case True
  let ?st = "retryLoop responses retryAttempts delay retryStart"
  have "atLoopExit responses retryAttempts delay ?st"
    using True by (intro retryLoop_exit atLoopHead_start) (simp add: retryStart_def)
  then have ex: "0 < calls ?st" "int (calls ?st) \<le> retryAttempts"
      "sleeps ?st = map (\<lambda>k. delay * int k) [1 ..< calls ?st]"
      "list_all (\<lambda>j. retryable (responses j)) [0 ..< calls ?st - 1]"
      "int (calls ?st) < retryAttempts \<longrightarrow> \<not> retryable (responses (calls ?st - 1))"
      "result ?st = Some (responses (calls ?st - 1))"
    by (simp_all add: atLoopExit_def)
  have retried: "(statusCode (responses j) = 0 \<or> statusCode (responses j) \<ge> 500)
                 \<and> \<not> (400 \<le> statusCode (responses j) \<and> statusCode (responses j) < 500)"
    if "Suc j < calls ?st" for j
  proof -
    from ex(4) that have "retryable (responses j)" by (simp add: list_all_iff)
    then show ?thesis by (auto simp: retryable_def)
  qed
  have one: "sleeps ?st = []" if "retryAttempts = 1"
    using ex(1,2,3) that by simp
  have early: "int (calls ?st) < retryAttempts \<longrightarrow>
               \<not> (statusCode (responses (calls ?st - 1)) = 0
                  \<or> statusCode (responses (calls ?st - 1)) \<ge> 500)"
    using ex(5) by (simp add: retryable_def)
  have recorded: "results (checkTask responses retryAttempts delay onProgress urls u b)
                    = results b @ [result ?st]"
    by (simp add: checkTask_def Let_def)
  show ?thesis
    unfolding Let_def
    using retried ex(3) one ex(2) ex(1) early ex(6) recorded True
    by (intro conjI allI impI) simp_all
qed

theorem retry_policy_witness:
  "sleeps (retryLoop (\<lambda>k. if k < 2 then exampleResult 500 else exampleResult 200) 3 100 retryStart)
     = [100, 200]
   \<and> result (retryLoop (\<lambda>k. if k < 2 then exampleResult 500 else exampleResult 200) 3 100 retryStart)
     = Some (exampleResult 200)
   \<and> sleeps (retryLoop (\<lambda>k. exampleResult 503) 1 100 retryStart) = []"
proof -
  let ?responses = "\<lambda>k::nat. if k < 2 then exampleResult 500 else exampleResult 200"
  have c: "calls (retryLoop ?responses 3 100 retryStart) = 3"
    by (simp add: retryLoop.simps retryStart_def exampleResult_def Let_def)
  let ?b = "\<lparr>results = [], completed = 0, reported = [], timers = []\<rparr>"
  have range: "[Suc 0 ..< 3] = [1, 2]"
    by (simp add: upt_rec)
  from retry_policy [of ?responses 3 100 False "[]" "[]" ?b]
       retry_policy [of "\<lambda>k. exampleResult 503" 1 100 False "[]" "[]" ?b]
  show ?thesis
    by (simp add: Let_def c range)
qed

text \<open>What the loop of \<^verbatim>\<open>categorizeResults\<close> puts into each bucket.\<close>

lemma fold_pushes:
  assumes "\<And>r st. p (f r st) = p st @ (if P r then [r] else [])"
  shows "p (fold f rs st) = p st @ filter P rs"
  by (induction rs arbitrary: st) (simp_all add: assms)

lemma fold_adds:
  fixes p :: "'s \<Rightarrow> int"
  assumes "\<And>r st. p (f r st) = p st + g r"
  shows "p (fold f rs st) = p st + sum_list (map g rs)"
  by (induction rs arbitrary: st) (simp_all add: assms)

lemma categorizeResults_buckets:
  "ok (categorizeResults rs) = filter (\<lambda>r. statusCode r = 200) rs"
  "redirects (categorizeResults rs) = filter (\<lambda>r. 300 \<le> statusCode r \<and> statusCode r < 400) rs"
  "clientErrors (categorizeResults rs) = filter (\<lambda>r. 400 \<le> statusCode r \<and> statusCode r < 500) rs"
  "serverErrors (categorizeResults rs) = filter (\<lambda>r. 500 \<le> statusCode r) rs"
  "networkErrors (categorizeResults rs) = filter (\<lambda>r. statusCode r \<noteq> 200 \<and> statusCode r < 300) rs"
proof -
  let ?start = "\<lparr>ok = [], redirects = [], clientErrors = [], serverErrors = [],
                  networkErrors = [],
                  categorized.summary = \<lparr>total = length rs, okCount = 0, redirectCount = 0,
                              clientErrorCount = 0, serverErrorCount = 0,
                              networkErrorCount = 0, avgResponseTime = 0\<rparr>\<rparr>"
  show "ok (categorizeResults rs) = filter (\<lambda>r. statusCode r = 200) rs"
    using fold_pushes [of "\<lambda>st. ok (fst st)" categorizeStep "\<lambda>r. statusCode r = 200" rs "(?start, 0)"]
    by (simp add: categorizeResults_def Let_def categorizeStep_def)
  show "redirects (categorizeResults rs)
          = filter (\<lambda>r. 300 \<le> statusCode r \<and> statusCode r < 400) rs"
    using fold_pushes [of "\<lambda>st. redirects (fst st)" categorizeStep
                          "\<lambda>r. 300 \<le> statusCode r \<and> statusCode r < 400" rs "(?start, 0)"]
    by (simp add: categorizeResults_def Let_def categorizeStep_def)
  show "clientErrors (categorizeResults rs)
          = filter (\<lambda>r. 400 \<le> statusCode r \<and> statusCode r < 500) rs"
    using fold_pushes [of "\<lambda>st. clientErrors (fst st)" categorizeStep
                          "\<lambda>r. 400 \<le> statusCode r \<and> statusCode r < 500" rs "(?start, 0)"]
    by (simp add: categorizeResults_def Let_def categorizeStep_def)
  show "serverErrors (categorizeResults rs) = filter (\<lambda>r. 500 \<le> statusCode r) rs"
    using fold_pushes [of "\<lambda>st. serverErrors (fst st)" categorizeStep
                          "\<lambda>r. 500 \<le> statusCode r" rs "(?start, 0)"]
    by (simp add: categorizeResults_def Let_def categorizeStep_def)
  show "networkErrors (categorizeResults rs)
          = filter (\<lambda>r. statusCode r \<noteq> 200 \<and> statusCode r < 300) rs"
    using fold_pushes [of "\<lambda>st. networkErrors (fst st)" categorizeStep
                          "\<lambda>r. statusCode r \<noteq> 200 \<and> statusCode r < 300" rs "(?start, 0)"]
    by (simp add: categorizeResults_def Let_def categorizeStep_def)
qed

lemma categorizeResults_average:
  "avgResponseTime (categorized.summary (categorizeResults rs))
     = (if rs = [] then 0
        else mathRound (of_int (sum_list (map responseTime rs)) / of_nat (length rs)))"
  using fold_adds [of snd categorizeStep responseTime rs]
  by (simp add: categorizeResults_def Let_def categorizeStep_def)

text \<open>
  C7. The last branch of the loop of \<^verbatim>\<open>categorizeResults\<close> takes every result that none
  of the tests above it took, not only those with status 0: a response with status 204
  is filed under \<^verbatim>\<open>networkErrors\<close> and counted as a network error.
\<close>

theorem categorizeResults_204_failing:
  "statusCode (exampleResult 204) = 204
   \<and> networkErrors (categorizeResults [exampleResult 204]) = [exampleResult 204]
   \<and> networkErrorCount (categorized.summary (categorizeResults [exampleResult 204])) = 1
   \<and> ok (categorizeResults [exampleResult 204]) = []"
  by (simp add: categorizeResults_def categorizeStep_def Let_def exampleResult_def)

section \<open>Absent titles and descriptions\<close>

text \<open>
  C8 as stated fails: when both sides are absent the comparison reports a match with
  similarity 1 and no issue.
\<close>

theorem compareTitles_absent_counterexample:
  "compareTitles None (Some '''') = \<lparr>match = True, similarity = 1, issue = None\<rparr>
   \<and> compareDescriptions None None = \<lparr>match = True, similarity = 1, issue = None\<rparr>"
  by (simp add: compareTitles_def compareDescriptions_def falsy_def textOf_def)

text \<open>
  C8, amended. When exactly one side is absent, \<^verbatim>\<open>compareTitles\<close> returns no match,
  similarity 0 and the issue naming the absent side, and \<^verbatim>\<open>compareDescriptions\<close> does
  the same with its own issue texts. When both sides are absent, both return a match
  with similarity 1 and no issue.
\<close>

theorem compare_absent_amended:
  "(falsy a \<and> \<not> falsy b \<longrightarrow>
      compareTitles a b
        = \<lparr>match = False, similarity = 0, issue = Some ''Old page missing title tag''\<rparr>
      \<and> compareDescriptions a b
        = \<lparr>match = False, similarity = 0, issue = Some ''Old page missing meta description''\<rparr>)
   \<and> (\<not> falsy a \<and> falsy b \<longrightarrow>
      compareTitles a b
        = \<lparr>match = False, similarity = 0, issue = Some ''New page missing title tag''\<rparr>
      \<and> compareDescriptions a b
        = \<lparr>match = False, similarity = 0, issue = Some ''New page missing meta description''\<rparr>)
   \<and> (falsy a \<and> falsy b \<longrightarrow>
      compareTitles a b = \<lparr>match = True, similarity = 1, issue = None\<rparr>
      \<and> compareDescriptions a b = \<lparr>match = True, similarity = 1, issue = None\<rparr>)"
  by (simp add: compareTitles_def compareDescriptions_def)

theorem compare_absent_amended_witness:
  "compareTitles None (Some ''About Us'')
     = \<lparr>match = False, similarity = 0, issue = Some ''Old page missing title tag''\<rparr>
   \<and> compareDescriptions (Some ''We sell boats'') (Some '''')
     = \<lparr>match = False, similarity = 0, issue = Some ''New page missing meta description''\<rparr>
   \<and> compareTitles (Some '''') None = \<lparr>match = True, similarity = 1, issue = None\<rparr>"
proof -
  have f: "falsy None" "falsy (Some '''')" "\<not> falsy (Some ''About Us'')"
    "\<not> falsy (Some ''We sell boats'')"
    by (simp_all add: falsy_def textOf_def)
  from compare_absent_amended [of None "Some ''About Us''"]
       compare_absent_amended [of "Some ''We sell boats''" "Some ''''"]
       compare_absent_amended [of "Some ''''" None]
  show ?thesis by (simp add: f)
qed

end
